theory Spec2Isabelle
  imports Complex_Main "HOL-Library.Word"
begin

unbundle bit_operations_syntax

section \<open>Data model of h264-packetizer.ts\<close>

text \<open>
  A Node \<open>Buffer\<close> is a list of bytes. Reading \<open>data[i]\<close> past the end gives
  \<open>undefined\<close>, and every such read in the source is followed by a bitwise \<open>&\<close>,
  which turns \<open>undefined\<close> into 0: \<open>byteAt\<close> returns 0 out of range.
  \<open>subarray start end\<close> clamps both indices to the buffer, as \<open>Buffer.subarray\<close>
  does for the non-negative indices the source passes.
\<close>

type_synonym byte = "8 word"
type_synonym buffer = "byte list"

definition byteAt :: "buffer \<Rightarrow> nat \<Rightarrow> byte" where
  "byteAt data i = (if i < length data then data ! i else 0)"

definition subarray :: "buffer \<Rightarrow> nat \<Rightarrow> nat \<Rightarrow> buffer" where
  "subarray data start end' = take (end' - start) (drop start data)"

definition NAL_TYPE_STAP_A :: byte where "NAL_TYPE_STAP_A = 24"
definition NAL_TYPE_FU_A :: byte where "NAL_TYPE_FU_A = 28"
definition NAL_TYPE_IDR :: byte where "NAL_TYPE_IDR = 5"
definition NAL_TYPE_SEI :: byte where "NAL_TYPE_SEI = 6"
definition NAL_TYPE_SPS :: byte where "NAL_TYPE_SPS = 7"
definition NAL_TYPE_PPS :: byte where "NAL_TYPE_PPS = 8"

definition NAL_HEADER_SIZE :: nat where "NAL_HEADER_SIZE = 1"
definition FU_A_HEADER_SIZE :: nat where "FU_A_HEADER_SIZE = 2"
definition LENGTH_FIELD_SIZE :: nat where "LENGTH_FIELD_SIZE = 2"
definition STAP_A_HEADER_SIZE :: nat where
  "STAP_A_HEADER_SIZE = NAL_HEADER_SIZE + LENGTH_FIELD_SIZE"

text \<open>
  What the source throws, and the one loop of the source that can fail to end
  (\<open>Diverges\<close>, see \<open>fuaLoop\<close>).
\<close>

datatype error = Error | RangeError | TypeError | Diverges

text \<open>
  The parsed RTP packet (werift's \<open>RtpPacket\<close>): only the header fields the source
  reads, and the payload.
\<close>

record RtpPacket =
  sequenceNumber :: nat
  marker :: bool
  timestamp :: nat
  payload :: buffer

text \<open>
  \<open>rtp.serialize()\<close> is werift's; the model keeps what it is handed: the header fields
  as \<open>createPacket\<close> has set them at the moment of the call, and the payload. The
  sequence number is a JavaScript number there, so an \<open>int\<close>.
\<close>

record Serialized =
  outSequenceNumber :: int
  outMarker :: bool
  outTimestamp :: nat
  outPayload :: buffer

record H264Repacketizer =
  extraPackets :: int
  fuaMax :: int
  maxPacketSize :: int
  pendingStapA :: "RtpPacket list option"
  pendingFuA :: "RtpPacket list option"
  seenSps :: bool
  sps :: "buffer option"
  pps :: "buffer option"

definition newRepacketizer :: "int \<Rightarrow> buffer option \<Rightarrow> buffer option \<Rightarrow> H264Repacketizer" where
  "newRepacketizer maxSize s p =
     \<lparr> extraPackets = 0, fuaMax = maxSize - int FU_A_HEADER_SIZE, maxPacketSize = maxSize,
       pendingStapA = None, pendingFuA = None, seenSps = False, sps = s, pps = p \<rparr>"

section \<open>createPacket\<close>

text \<open>
  JavaScript's \<open>%\<close> takes the sign of the dividend (truncated division), unlike
  \<open>mod\<close> on \<open>int\<close>.
\<close>

definition jsRem :: "int \<Rightarrow> int \<Rightarrow> int" where
  "jsRem a b = sgn a * (\<bar>a\<bar> mod \<bar>b\<bar>)"

definition createPacket :: "H264Repacketizer \<Rightarrow> RtpPacket \<Rightarrow> buffer \<Rightarrow> bool \<Rightarrow> Serialized" where
  "createPacket this rtp data mk =
     \<lparr> outSequenceNumber = jsRem (int (sequenceNumber rtp) + extraPackets this + 0x10000) 0x10000,
       outMarker = mk,
       outTimestamp = timestamp rtp,
       outPayload = data \<rparr>"

section \<open>packetizeFuA\<close>

text \<open>
  The \<open>while (offset < data.length)\<close> loop of \<open>packetizeFuA\<close>. Each round cuts
  \<open>packageSize + 1\<close> bytes while \<open>numLargerPackets > 0\<close> and \<open>packageSize\<close> bytes
  afterwards, takes \<open>fuHeaderEnd\<close> when the cut reaches the end of the data, and
  continues with \<open>fuHeaderMiddle\<close>. A round that cuts nothing leaves \<open>offset\<close>
  where it is, and the source loops for ever: that is the value \<open>Inl Diverges\<close>.
\<close>

function fuaLoop ::
  "buffer \<Rightarrow> buffer \<Rightarrow> buffer \<Rightarrow> nat \<Rightarrow> nat \<Rightarrow> nat \<Rightarrow> buffer \<Rightarrow> error + buffer list" where
  "fuaLoop data fuHeaderMiddle fuHeaderEnd packageSize offset numLargerPackets fuHeader =
     (if offset < length data then
        (if numLargerPackets = 0 \<and> packageSize = 0 then Inl Diverges
         else
           (case fuaLoop data fuHeaderMiddle fuHeaderEnd packageSize
                   (offset + (if 0 < numLargerPackets then packageSize + 1 else packageSize))
                   (if 0 < numLargerPackets then numLargerPackets - 1 else numLargerPackets)
                   fuHeaderMiddle of
              Inl e \<Rightarrow> Inl e
            | Inr packages \<Rightarrow>
                Inr (((if offset + (if 0 < numLargerPackets then packageSize + 1 else packageSize)
                          = length data
                       then fuHeaderEnd else fuHeader)
                      @ subarray data offset
                          (offset + (if 0 < numLargerPackets then packageSize + 1 else packageSize)))
                     # packages)))
      else Inr [])"
  by pat_completeness auto
termination
  by (relation "measure (\<lambda>(data, m, e, c, offset, r, h). length data - offset)") auto

declare fuaLoop.simps [simp del]

text \<open>\<open>Math.ceil(a / b)\<close> for \<open>a \<ge> 0\<close> and \<open>b \<ge> 1\<close>, in integer arithmetic.\<close>

definition ceilDiv :: "nat \<Rightarrow> nat \<Rightarrow> nat" where
  "ceilDiv a b = (a + b - 1) div b"

text \<open>
  \<open>packetizeFuA(data, noStart, noEnd)\<close>; an omitted optional flag is \<open>False\<close>.
  The model has the function in its two halves. \<open>fuaUnwrap\<close> is the block under
  \<open>if (initialNalType === NAL_TYPE_FU_A)\<close>: an FU-A packet is turned back into the
  piece of the NAL unit it carries, and the flags follow its start and end bits.
\<close>

definition fuaUnwrap :: "buffer \<Rightarrow> bool \<Rightarrow> bool \<Rightarrow> buffer \<times> bool \<times> bool" where
  "fuaUnwrap data noStart noEnd =
     (let initialNalType = byteAt data 0 AND 0x1f
      in if initialNalType = NAL_TYPE_FU_A then
           (let fnri = byteAt data 0 AND (0x80 OR 0x60);
                originalNalType = byteAt data 1 AND 0x1f;
                isFuStart = (byteAt data 1 AND 0x80 \<noteq> 0);
                isFuEnd = (byteAt data 1 AND 0x40 \<noteq> 0);
                isFuMiddle = (\<not> isFuStart \<and> \<not> isFuEnd);
                originalNalHeader = [fnri OR originalNalType];
                data1 = originalNalHeader @ subarray data FU_A_HEADER_SIZE (length data)
            in if isFuStart then (data1, noStart, True)
               else if isFuEnd then (data1, True, noEnd)
               else if isFuMiddle then (data1, True, True)
               else (data1, noStart, noEnd))
         else (data, noStart, noEnd))"

text \<open>
  \<open>fuaFragments\<close> is the rest of the function, from \<open>const payloadSize\<close> on.
  The three numbers before the loop are JavaScript doubles:
  \<^item> with \<open>payloadSize \<le> 0\<close> the loop body never runs (\<open>offset = 1\<close> is not below
    \<open>data.length\<close>), whatever \<open>NaN\<close> the divisions give;
  \<^item> with \<open>payloadSize \<ge> 1\<close> and \<open>fuaMax \<ge> 1\<close> they are the integers
    \<open>ceil (payloadSize / fuaMax)\<close>, \<open>payloadSize mod numPackets\<close> and
    \<open>payloadSize div numPackets\<close> (the quotient of two buffer sizes is exact enough
    in a double for \<open>Math.ceil\<close> and \<open>Math.floor\<close> to round as on the rationals);
  \<^item> with \<open>fuaMax = 0\<close>, \<open>numPackets\<close> is \<open>Infinity\<close>, so \<open>numLargerPackets\<close> is
    \<open>payloadSize\<close> and \<open>packageSize\<close> is \<open>0\<close>;
  \<^item> with \<open>fuaMax < 0\<close>, \<open>numPackets\<close> is negative or \<open>-0\<close>, \<open>packageSize\<close> is at
    most \<open>-1\<close> and \<open>offset\<close> never grows: the loop does not end.
\<close>

definition fuaFragments ::
  "H264Repacketizer \<Rightarrow> buffer \<Rightarrow> bool \<Rightarrow> bool \<Rightarrow> error + buffer list" where
  "fuaFragments this data noStart noEnd =
     (let payloadSize = length data - NAL_HEADER_SIZE;
          fnri = byteAt data 0 AND (0x80 OR 0x60);
          nal = byteAt data 0 AND 0x1F;
          fuIndicator = fnri OR NAL_TYPE_FU_A;
          fuHeaderMiddle = [fuIndicator, nal];
          fuHeaderStart = (if noStart then fuHeaderMiddle else [fuIndicator, nal OR 0x80]);
          fuHeaderEnd = (if noEnd then fuHeaderMiddle else [fuIndicator, nal OR 0x40])
      in if payloadSize = 0 then Inr []
         else if fuaMax this < 0 then Inl Diverges
         else if fuaMax this = 0 then
           fuaLoop data fuHeaderMiddle fuHeaderEnd 0 NAL_HEADER_SIZE payloadSize fuHeaderStart
         else
           (let numPackets = ceilDiv payloadSize (nat (fuaMax this));
                numLargerPackets = payloadSize mod numPackets;
                packageSize = payloadSize div numPackets
            in fuaLoop data fuHeaderMiddle fuHeaderEnd packageSize NAL_HEADER_SIZE
                 numLargerPackets fuHeaderStart))"

definition packetizeFuA ::
  "H264Repacketizer \<Rightarrow> buffer \<Rightarrow> bool \<Rightarrow> bool \<Rightarrow> error + buffer list" where
  "packetizeFuA this data0 noStart0 noEnd0 =
     (case fuaUnwrap data0 noStart0 noEnd0 of
        (data, noStart, noEnd) \<Rightarrow> fuaFragments this data noStart noEnd)"

section \<open>STAP-A: depacketizeStapA, packetizeOneStapA, packetizeStapA\<close>

text \<open>
  Node's \<open>readUInt16BE\<close> throws a \<open>RangeError\<close> when the two bytes are not inside
  the buffer, and \<open>writeUInt16BE\<close> when the value is not an unsigned 16-bit integer.
\<close>

definition readUInt16BE :: "buffer \<Rightarrow> nat \<Rightarrow> error + nat" where
  "readUInt16BE data pos =
     (if pos + 2 \<le> length data
      then Inr (unat (data ! pos) * 256 + unat (data ! (pos + 1)))
      else Inl RangeError)"

definition writeUInt16BE :: "nat \<Rightarrow> error + buffer" where
  "writeUInt16BE v =
     (if v \<le> 0xFFFF then Inr [of_nat (v div 256), of_nat (v mod 256)] else Inl RangeError)"

text \<open>
  The loop of \<open>depacketizeStapA\<close>: \<open>lastPos\<close> is \<open>undefined\<close> (\<open>None\<close>) before
  the first length field has been read; \<open>data.subarray(undefined)\<close> is the whole buffer.
\<close>

function depacketizeLoop :: "buffer \<Rightarrow> buffer list \<Rightarrow> nat option \<Rightarrow> nat \<Rightarrow> error + buffer list" where
  "depacketizeLoop data ret lastPos pos =
     (if pos < length data then
        (case readUInt16BE data pos of
           Inl e \<Rightarrow> Inl e
         | Inr naluSize \<Rightarrow>
             depacketizeLoop data
               (case lastPos of None \<Rightarrow> ret | Some lp \<Rightarrow> ret @ [subarray data lp pos])
               (Some (pos + LENGTH_FIELD_SIZE))
               (pos + LENGTH_FIELD_SIZE + naluSize))
      else Inr (ret @ [case lastPos of None \<Rightarrow> data | Some lp \<Rightarrow> subarray data lp (length data)]))"
  by pat_completeness auto
termination
  by (relation "measure (\<lambda>(data, ret, lastPos, pos). length data - pos)")
     (auto simp: LENGTH_FIELD_SIZE_def)

declare depacketizeLoop.simps [simp del]

definition depacketizeStapA :: "buffer \<Rightarrow> error + buffer list" where
  "depacketizeStapA data = depacketizeLoop data [] None NAL_HEADER_SIZE"

text \<open>
  The loop of \<open>packetizeOneStapA\<close> over the queue \<open>datas\<close>; it returns what is left
  of the queue, the header byte, the counter and the pieces of the payload.
\<close>

fun stapALoop ::
  "buffer list \<Rightarrow> byte \<Rightarrow> int \<Rightarrow> nat \<Rightarrow> buffer list
   \<Rightarrow> error + (buffer list \<times> byte \<times> nat \<times> buffer list)" where
  "stapALoop [] stapHeader availableSize counter payload' =
     Inr ([], stapHeader, counter, payload')"
| "stapALoop (nalu # datas) stapHeader availableSize counter payload' =
     (if int (length nalu) + int LENGTH_FIELD_SIZE \<le> availableSize \<and> counter < 9 then
        (let stapHeader1 = stapHeader OR (byteAt nalu 0 AND 0x80);
             nri = byteAt nalu 0 AND 0x60;
             stapHeader2 = (if (stapHeader1 AND 0x60) < nri
                            then (stapHeader1 AND 0x9F) OR nri else stapHeader1)
         in case writeUInt16BE (length nalu) of
              Inl e \<Rightarrow> Inl e
            | Inr packed \<Rightarrow>
                stapALoop datas stapHeader2
                  (availableSize - (int LENGTH_FIELD_SIZE + int (length nalu)))
                  (counter + 1) (payload' @ [packed, nalu]))
      else Inr (nalu # datas, stapHeader, counter, payload'))"

text \<open>
  \<open>packetizeOneStapA\<close> shifts NALs off the caller's array: the model returns the
  packet together with the rest of the queue.
\<close>

definition packetizeOneStapA ::
  "H264Repacketizer \<Rightarrow> buffer list \<Rightarrow> error + (buffer \<times> buffer list)" where
  "packetizeOneStapA this datas =
     (if datas = [] then Inl Error
      else
        (case stapALoop datas (NAL_TYPE_STAP_A OR (byteAt (hd datas) 0 AND 0xE0))
                (maxPacketSize this - int STAP_A_HEADER_SIZE) 0 [] of
           Inl e \<Rightarrow> Inl e
         | Inr (rest, stapHeader, counter, payload') \<Rightarrow>
             if counter = 0 then Inr (hd rest, tl rest)
             else Inr (concat ([stapHeader] # payload'), rest)))"

lemma stapALoop_rest:
  "stapALoop datas h a c p = Inr (rest, h', c', p') \<Longrightarrow>
   c \<le> c' \<and> length rest + (c' - c) = length datas \<and> (c' = c \<longrightarrow> rest = datas)"
proof (induction datas arbitrary: h a c p)
  case Nil
  then show ?case by simp
next
  case (Cons nalu datas)
  show ?case
  proof (cases "int (length nalu) + int LENGTH_FIELD_SIZE \<le> a \<and> c < 9")
    case False
    with Cons.prems show ?thesis by auto
  next
    case True
    with Cons.prems obtain h2 a2 p2 where
      "stapALoop datas h2 a2 (c + 1) p2 = Inr (rest, h', c', p')"
      by (auto simp: Let_def split: sum.splits)
    from Cons.IH[OF this] show ?thesis by auto
  qed
qed

lemma packetizeOneStapA_shrinks:
  assumes "packetizeOneStapA this datas = Inr (x, rest)"
  shows "length rest < length datas"
proof -
  from assms have ne: "datas \<noteq> []"
    by (auto simp: packetizeOneStapA_def)
  with assms obtain r h c p where
    loop: "stapALoop datas (NAL_TYPE_STAP_A OR (byteAt (hd datas) 0 AND 0xE0))
             (maxPacketSize this - int STAP_A_HEADER_SIZE) 0 [] = Inr (r, h, c, p)"
    and res: "(x, rest) = (if c = 0 then (hd r, tl r) else (concat ([h] # p), r))"
    by (auto simp: packetizeOneStapA_def split: sum.splits prod.splits if_splits)
  from stapALoop_rest[OF loop] have "length r + c = length datas" and "c = 0 \<longrightarrow> r = datas"
    by auto
  with res ne show ?thesis
    by (cases "c = 0") auto
qed

function packetizeStapA :: "H264Repacketizer \<Rightarrow> buffer list \<Rightarrow> error + buffer list" where
  "packetizeStapA this datas =
     (if datas = [] then Inr []
      else
        (case packetizeOneStapA this datas of
           Inl e \<Rightarrow> Inl e
         | Inr (x, rest) \<Rightarrow>
             (case packetizeStapA this rest of
                Inl e \<Rightarrow> Inl e
              | Inr ret \<Rightarrow> Inr (x # ret))))"
  by pat_completeness auto
termination
  by (relation "measure (\<lambda>(this, datas). length datas)")
     (auto dest: packetizeOneStapA_shrinks)

declare packetizeStapA.simps [simp del]

text \<open>
  The admission test of \<open>packetizeOneStapA\<close> passed by every NAL of a queue in turn:
  \<open>nalu.length + 2 \<le> availableSize\<close>, the budget going down by \<open>2 + nalu.length\<close>
  for each NAL. \<open>lengthField\<close> is the two bytes \<open>writeUInt16BE\<close> writes for a NAL.
\<close>

fun fitsBudget :: "int \<Rightarrow> buffer list \<Rightarrow> bool" where
  "fitsBudget availableSize [] = True"
| "fitsBudget availableSize (nalu # datas) =
     (int (length nalu) + int LENGTH_FIELD_SIZE \<le> availableSize \<and>
      fitsBudget (availableSize - (int LENGTH_FIELD_SIZE + int (length nalu))) datas)"

definition lengthField :: "buffer \<Rightarrow> buffer" where
  "lengthField nalu = [of_nat (length nalu div 256), of_nat (length nalu mod 256)]"

section \<open>The repacketizer: flushes, SPS/PPS synthesis, repacketize\<close>

text \<open>
  The methods below mutate \<open>this\<close> and push onto the caller's array \<open>ret\<close>: the
  model passes both through. An exception leaves the method, and the model then gives
  the error alone. \<open>bindE\<close> chains two steps of which the first may throw.
\<close>

definition bindE :: "error + 'a \<Rightarrow> ('a \<Rightarrow> error + 'b) \<Rightarrow> error + 'b" where
  "bindE m f = (case m of Inl e \<Rightarrow> Inl e | Inr x \<Rightarrow> f x)"

type_synonym progress = "H264Repacketizer \<times> Serialized list"

text \<open>
  \<open>createRtpPackets\<close>: the \<open>forEach\<close> over \<open>nalus\<close>, with the index and
  \<open>nalus.length\<close>; \<open>extraPackets\<close> goes up before every packet but the first.
\<close>

fun createRtpPacketsLoop ::
  "H264Repacketizer \<Rightarrow> RtpPacket \<Rightarrow> buffer list \<Rightarrow> nat \<Rightarrow> nat \<Rightarrow> Serialized list \<Rightarrow> bool
   \<Rightarrow> progress" where
  "createRtpPacketsLoop this packet [] index len ret hadMarker = (this, ret)"
| "createRtpPacketsLoop this packet (packetized # nalus) index len ret hadMarker =
     (let this1 = (if index \<noteq> 0 then this\<lparr>extraPackets := extraPackets this + 1\<rparr> else this);
          mk = (hadMarker \<and> int index = int len - 1)
      in createRtpPacketsLoop this1 packet nalus (index + 1) len
           (ret @ [createPacket this1 packet packetized mk]) hadMarker)"

definition createRtpPackets ::
  "H264Repacketizer \<Rightarrow> RtpPacket \<Rightarrow> buffer list \<Rightarrow> Serialized list \<Rightarrow> bool \<Rightarrow> progress" where
  "createRtpPackets this packet nalus ret hadMarker =
     createRtpPacketsLoop this packet nalus 0 (length nalus) ret hadMarker"

text \<open>
  \<open>flushPendingStapA\<close>. An empty array is truthy in JavaScript: with
  \<open>pendingStapA = []\<close> the method goes on and \<open>first.header\<close> throws a TypeError.
\<close>

definition flushPendingStapA :: "H264Repacketizer \<Rightarrow> Serialized list \<Rightarrow> error + progress" where
  "flushPendingStapA this ret =
     (case pendingStapA this of
        None \<Rightarrow> Inr (this, ret)
      | Some [] \<Rightarrow> Inl TypeError
      | Some (first # others) \<Rightarrow>
          (let hadMarker = marker first
           in bindE (packetizeStapA this (map payload (first # others)))
                (\<lambda>aggregates.
                   if length aggregates \<noteq> 1 then Inr (this\<lparr>pendingStapA := None\<rparr>, ret)
                   else Inr (this\<lparr>extraPackets :=
                                   extraPackets this - (int (length (first # others)) - 1),
                                 pendingStapA := None\<rparr>,
                             ret @ map (\<lambda>(index, packetized).
                                      createPacket this first packetized
                                        (hadMarker \<and> int index = int (length aggregates) - 1))
                                    (enumerate 0 aggregates)))))"

text \<open>
  The \<open>for\<close> loop of \<open>flushPendingFuA\<close> that checks the NAL types and the sequence
  numbers of the pending fragments; \<open>False\<close> is either of its two early returns.
\<close>

fun fuaConsistent :: "byte \<Rightarrow> nat option \<Rightarrow> RtpPacket list \<Rightarrow> bool" where
  "fuaConsistent originalNalType lastSequenceNumber [] = True"
| "fuaConsistent originalNalType lastSequenceNumber (packet # packets) =
     (if byteAt (payload packet) 1 AND 0x1f \<noteq> originalNalType then False
      else if (case lastSequenceNumber of
                 None \<Rightarrow> False
               | Some l \<Rightarrow> sequenceNumber packet \<noteq> (l + 1) mod 0x10000) then False
      else fuaConsistent originalNalType (Some (sequenceNumber packet)) packets)"

text \<open>
  The lines of \<open>flushPendingFuA\<close> that put the NAL unit back together: the header
  byte from the first fragment, then every fragment without its 2 FU bytes.
\<close>

definition defragment :: "RtpPacket list \<Rightarrow> buffer" where
  "defragment pending =
     (let first = hd pending;
          originalNalType = byteAt (payload first) 1 AND 0x1f;
          fnri = byteAt (payload first) 0 AND (0x80 OR 0x60);
          originalNalHeader = [fnri OR originalNalType];
          originalFragments =
            map (\<lambda>packet. subarray (payload packet) FU_A_HEADER_SIZE
                              (length (payload packet))) pending
      in concat (originalNalHeader # originalFragments))"

definition flushPendingFuA :: "H264Repacketizer \<Rightarrow> Serialized list \<Rightarrow> error + progress" where
  "flushPendingFuA this ret =
     (case pendingFuA this of
        None \<Rightarrow> Inr (this, ret)
      | Some [] \<Rightarrow> Inl TypeError
      | Some (first # others) \<Rightarrow>
          (let last' = last (first # others);
               hasFuStart = (byteAt (payload first) 1 AND 0x80 \<noteq> 0);
               hasFuEnd = (byteAt (payload last') 1 AND 0x40 \<noteq> 0);
               originalNalType = byteAt (payload first) 1 AND 0x1f
           in if \<not> fuaConsistent originalNalType None (first # others)
              then Inr (this\<lparr>pendingFuA := None\<rparr>, ret)
              else
                bindE (packetizeFuA this (defragment (first # others))
                         (\<not> hasFuStart) (\<not> hasFuEnd))
                  (\<lambda>fragments.
                     case createRtpPackets this first fragments ret (marker last') of
                       (this1, ret1) \<Rightarrow>
                         Inr (this1\<lparr>extraPackets :=
                                      extraPackets this1 - (int (length (first # others)) - 1),
                                    pendingFuA := None\<rparr>, ret1))))"

text \<open>
  \<open>maybeSendSpsPps\<close>. \<open>codecInfo.sps\<close> and \<open>codecInfo.pps\<close> are \<open>None\<close> when
  they are \<open>undefined\<close>; a Buffer, even an empty one, is truthy.
\<close>

definition maybeSendSpsPps ::
  "H264Repacketizer \<Rightarrow> RtpPacket \<Rightarrow> Serialized list \<Rightarrow> error + progress" where
  "maybeSendSpsPps this packet ret =
     (case (sps this, pps this) of
        (Some s, Some p) \<Rightarrow>
          bindE (packetizeStapA this [s, p])
            (\<lambda>aggregates.
               if length aggregates \<noteq> 1 then Inr (this, ret)
               else (case createRtpPackets this packet aggregates ret (marker packet) of
                       (this1, ret1) \<Rightarrow>
                         Inr (this1\<lparr>extraPackets := extraPackets this1 + 1\<rparr>, ret1)))
      | _ \<Rightarrow> Inr (this, ret))"

text \<open>The two flushes at the top of \<open>repacketize\<close>, on a change of timestamp.\<close>

definition flushOnTimestamp ::
  "H264Repacketizer \<Rightarrow> RtpPacket \<Rightarrow> Serialized list \<Rightarrow> error + progress" where
  "flushOnTimestamp this packet ret =
     bindE (case pendingFuA this of
              None \<Rightarrow> Inr (this, ret)
            | Some [] \<Rightarrow> Inl TypeError
            | Some (p # ps) \<Rightarrow>
                if timestamp p \<noteq> timestamp packet then flushPendingFuA this ret
                else Inr (this, ret))
       (\<lambda>(this, ret).
          case pendingStapA this of
            None \<Rightarrow> Inr (this, ret)
          | Some [] \<Rightarrow> Inl TypeError
          | Some (p # ps) \<Rightarrow>
              if timestamp p \<noteq> timestamp packet then flushPendingStapA this ret
              else Inr (this, ret))"

text \<open>The branch \<open>nalType === NAL_TYPE_FU_A\<close>; the branch under \<open>false &&\<close> is dead.\<close>

definition repacketizeFuA ::
  "H264Repacketizer \<Rightarrow> RtpPacket \<Rightarrow> Serialized list \<Rightarrow> error + progress" where
  "repacketizeFuA this0 packet ret0 =
     bindE (flushPendingStapA this0 ret0)
       (\<lambda>(this, ret).
          let data = payload packet;
              originalNalType = byteAt data 1 AND 0x1f;
              isFuStart = (byteAt data 1 AND 0x80 \<noteq> 0)
          in bindE (if originalNalType = NAL_TYPE_IDR \<and> isFuStart \<and> \<not> seenSps this
                    then maybeSendSpsPps this packet ret else Inr (this, ret))
               (\<lambda>(this, ret).
                  bindE (if pendingFuA this = None then
                           (if maxPacketSize this * 2 \<le> int (length (payload packet)) then
                              bindE (packetizeFuA this (payload packet) False False)
                                (\<lambda>fragments.
                                   Inr (createRtpPackets this packet fragments ret (marker packet)))
                            else Inr (this\<lparr>pendingFuA := Some []\<rparr>, ret))
                         else Inr (this, ret))
                    (\<lambda>(this, ret).
                       case pendingFuA this of
                         None \<Rightarrow> Inr (this, ret)
                       | Some pending \<Rightarrow>
                           (let this1 = this\<lparr>pendingFuA := Some (pending @ [packet])\<rparr>;
                                isFuEnd = (byteAt (payload packet) 1 AND 0x40 \<noteq> 0)
                            in if isFuEnd then flushPendingFuA this1 ret
                               else Inr (this1, ret)))))"

text \<open>
  The branch \<open>nalType === NAL_TYPE_STAP_A\<close>. The filter callback sets \<open>seenSps\<close>
  on every depacketized NAL before it drops the SEI ones.
\<close>

definition repacketizeStapA ::
  "H264Repacketizer \<Rightarrow> RtpPacket \<Rightarrow> Serialized list \<Rightarrow> error + progress" where
  "repacketizeStapA this0 packet ret0 =
     bindE (flushPendingFuA this0 ret0)
       (\<lambda>(this, ret).
          bindE (depacketizeStapA (payload packet))
            (\<lambda>nalus.
               let this1 = this\<lparr>seenSps :=
                                   (seenSps this \<or>
                                    list_ex (\<lambda>p. byteAt p 0 AND 0x1F = NAL_TYPE_SPS) nalus)\<rparr>;
                   depacketized = filter (\<lambda>p. byteAt p 0 AND 0x1F \<noteq> NAL_TYPE_SEI) nalus
               in bindE (packetizeStapA this1 depacketized)
                    (\<lambda>aggregates.
                       Inr (createRtpPackets this1 packet aggregates ret (marker packet)))))"

text \<open>The branch \<open>nalType >= 1 && nalType < 24\<close>.\<close>

definition repacketizeSingle ::
  "H264Repacketizer \<Rightarrow> RtpPacket \<Rightarrow> Serialized list \<Rightarrow> error + progress" where
  "repacketizeSingle this0 packet ret0 =
     (let nalType = byteAt (payload packet) 0 AND 0x1F
      in bindE (flushPendingFuA this0 ret0)
           (\<lambda>(this, ret).
              if nalType = NAL_TYPE_SPS \<or> nalType = NAL_TYPE_PPS then
                (let this1 = this\<lparr>seenSps := (seenSps this \<or> nalType = NAL_TYPE_SPS)\<rparr>;
                     pending = (case pendingStapA this1 of None \<Rightarrow> [] | Some ps \<Rightarrow> ps)
                 in Inr (this1\<lparr>pendingStapA := Some (pending @ [packet])\<rparr>, ret))
              else
                bindE (flushPendingStapA this ret)
                  (\<lambda>(this, ret).
                     if nalType = NAL_TYPE_SEI
                     then Inr (this\<lparr>extraPackets := extraPackets this - 1\<rparr>, ret)
                     else
                       bindE (if nalType = NAL_TYPE_IDR \<and> \<not> seenSps this
                              then maybeSendSpsPps this packet ret else Inr (this, ret))
                         (\<lambda>(this, ret).
                            if maxPacketSize this < int (length (payload packet)) then
                              bindE (packetizeFuA this (payload packet) False False)
                                (\<lambda>fragments.
                                   Inr (createRtpPackets this packet fragments ret
                                          (marker packet)))
                            else Inr (this, ret @ [createPacket this packet (payload packet)
                                                     (marker packet)])))))"

definition repacketize :: "H264Repacketizer \<Rightarrow> RtpPacket \<Rightarrow> error + progress" where
  "repacketize this0 packet =
     (let nalType = byteAt (payload packet) 0 AND 0x1F
      in bindE (flushOnTimestamp this0 packet [])
           (\<lambda>(this, ret).
              if nalType = NAL_TYPE_FU_A then repacketizeFuA this packet ret
              else if nalType = NAL_TYPE_STAP_A then repacketizeStapA this packet ret
              else if 1 \<le> nalType \<and> nalType < 24 then repacketizeSingle this packet ret
              else Inr (this\<lparr>extraPackets := extraPackets this - 1\<rparr>, ret)))"

section \<open>Vocabulary of the statements about repacketize\<close>

text \<open>
  The NALs that one call of \<open>repacketize\<close> can hand to \<open>packetizeStapA\<close>: the
  payloads of the pending SPS/PPS packets, the NALs unpacked from a STAP-A input, and
  the codec information. \<open>stapAFallback\<close> says that a payload is one of them and fails
  the admission test of \<open>packetizeOneStapA\<close> against the initial budget: such a NAL
  is what the fallback under \<open>counter === 0\<close> returns unframed.
\<close>

definition stapAQueue :: "H264Repacketizer \<Rightarrow> RtpPacket \<Rightarrow> buffer list" where
  "stapAQueue this packet =
     (case pendingStapA this of None \<Rightarrow> [] | Some pending \<Rightarrow> map payload pending)
     @ (case depacketizeStapA (payload packet) of Inl e \<Rightarrow> [] | Inr nalus \<Rightarrow> nalus)
     @ (case sps this of None \<Rightarrow> [] | Some s \<Rightarrow> [s])
     @ (case pps this of None \<Rightarrow> [] | Some p \<Rightarrow> [p])"

definition stapAFallback :: "H264Repacketizer \<Rightarrow> RtpPacket \<Rightarrow> buffer \<Rightarrow> bool" where
  "stapAFallback this packet x =
     (x \<in> set (stapAQueue this packet) \<and>
      maxPacketSize this - int STAP_A_HEADER_SIZE < int (length x) + int LENGTH_FIELD_SIZE)"

definition withinSize :: "H264Repacketizer \<Rightarrow> RtpPacket \<Rightarrow> buffer \<Rightarrow> bool" where
  "withinSize this packet x =
     (int (length x) \<le> maxPacketSize this \<or> stapAFallback this packet x)"

text \<open>
  What the steps of one call keep of the repacketizer \<open>s\<close> they started from: the
  sizes and the codec information; the pending STAP-A group is that of \<open>s\<close> until it
  is flushed.
\<close>

definition sameConfig :: "H264Repacketizer \<Rightarrow> H264Repacketizer \<Rightarrow> bool" where
  "sameConfig s this =
     (maxPacketSize this = maxPacketSize s \<and> fuaMax this = fuaMax s \<and>
      sps this = sps s \<and> pps this = pps s \<and>
      (pendingStapA this = pendingStapA s \<or> pendingStapA this = None))"

definition sizeInv :: "H264Repacketizer \<Rightarrow> RtpPacket \<Rightarrow> progress \<Rightarrow> bool" where
  "sizeInv s packet pr =
     (sameConfig s (fst pr) \<and> list_all (\<lambda>e. withinSize s packet (outPayload e)) (snd pr))"

text \<open>
  The input packets a repacketizer holds back: those of the pending STAP-A group and of
  the pending FU-A group. \<open>balance\<close> is what one call of \<open>repacketize\<close> lowers by
  one when every input is either emitted, dropped on purpose or held back:
  \<open>extraPackets\<close> less the packets emitted so far and less the packets held back.
\<close>

definition buffered :: "H264Repacketizer \<Rightarrow> nat" where
  "buffered this =
     (case pendingStapA this of None \<Rightarrow> 0 | Some pending \<Rightarrow> length pending)
     + (case pendingFuA this of None \<Rightarrow> 0 | Some pending \<Rightarrow> length pending)"

definition balance :: "progress \<Rightarrow> int" where
  "balance pr = extraPackets (fst pr) - int (length (snd pr)) - int (buffered (fst pr))"

text \<open>
  A pending group is emitted by its flush: \<open>flushPendingStapA\<close> gets exactly one
  aggregate for the group; \<open>flushPendingFuA\<close> finds the fragments consistent and gets
  at least one fragment back from \<open>packetizeFuA\<close>.
\<close>

definition stapAGroupEmits :: "H264Repacketizer \<Rightarrow> RtpPacket list \<Rightarrow> bool" where
  "stapAGroupEmits this pending =
     (case packetizeStapA this (map payload pending) of
        Inr [a] \<Rightarrow> True
      | _ \<Rightarrow> False)"

definition fuaGroupEmits :: "H264Repacketizer \<Rightarrow> RtpPacket list \<Rightarrow> bool" where
  "fuaGroupEmits this pending =
     (pending \<noteq> [] \<and>
      fuaConsistent (byteAt (payload (hd pending)) 1 AND 0x1f) None pending \<and>
      (case packetizeFuA this (defragment pending)
              (\<not> (byteAt (payload (hd pending)) 1 AND 0x80 \<noteq> 0))
              (\<not> (byteAt (payload (last pending)) 1 AND 0x40 \<noteq> 0)) of
         Inr (fragment # fragments) \<Rightarrow> True
       | _ \<Rightarrow> False))"

text \<open>
  The flushes at the top of \<open>repacketize\<close>: a pending group whose first packet has
  another timestamp than \<open>packet\<close> is flushed (\<open>newTimestamp\<close>), and \<open>keptGroup\<close> is
  what is pending after them.
\<close>

definition newTimestamp :: "RtpPacket list \<Rightarrow> RtpPacket \<Rightarrow> bool" where
  "newTimestamp pending packet =
     (case pending of [] \<Rightarrow> False | p # ps \<Rightarrow> timestamp p \<noteq> timestamp packet)"

definition keptGroup :: "RtpPacket list option \<Rightarrow> RtpPacket \<Rightarrow> RtpPacket list option" where
  "keptGroup group' packet =
     (case group' of
        None \<Rightarrow> None
      | Some pending \<Rightarrow> if newTimestamp pending packet then None else Some pending)"

text \<open>
  Every pending group that the call of \<open>repacketize\<close> on \<open>packet\<close> flushes is
  emitted, and a STAP-A input keeps a NAL after the SEI filter. The groups the call
  flushes, read off the source:
  \<^item> the pending STAP-A group, on a new timestamp, before an FU-A packet, and before a
    single NAL that is not SPS or PPS;
  \<^item> the pending FU-A group, on a new timestamp, before a STAP-A packet and before a
    single NAL;
  \<^item> for an FU-A packet with the end bit: the kept FU-A group with the packet added,
    or, when no group is kept and the packet is shorter than \<open>2 * maxPacketSize\<close>,
    the packet alone.
\<close>

definition flushesEmit :: "H264Repacketizer \<Rightarrow> RtpPacket \<Rightarrow> bool" where
  "flushesEmit this packet =
     (let nalType = byteAt (payload packet) 0 AND 0x1F;
          isFuA = (nalType = NAL_TYPE_FU_A);
          isStapA = (nalType = NAL_TYPE_STAP_A);
          isSingle = (\<not> isFuA \<and> \<not> isStapA \<and> 1 \<le> nalType \<and> nalType < 24);
          isCodec = (nalType = NAL_TYPE_SPS \<or> nalType = NAL_TYPE_PPS);
          isFuEnd = (byteAt (payload packet) 1 AND 0x40 \<noteq> 0);
          isFat = (maxPacketSize this * 2 \<le> int (length (payload packet)))
      in (case pendingStapA this of
            None \<Rightarrow> True
          | Some pending \<Rightarrow>
              newTimestamp pending packet \<or> isFuA \<or> (isSingle \<and> \<not> isCodec)
              \<longrightarrow> stapAGroupEmits this pending) \<and>
         (case pendingFuA this of
            None \<Rightarrow> True
          | Some pending \<Rightarrow>
              newTimestamp pending packet \<or> isStapA \<or> isSingle
              \<longrightarrow> fuaGroupEmits this pending) \<and>
         (isFuA \<and> isFuEnd \<longrightarrow>
            (case keptGroup (pendingFuA this) packet of
               None \<Rightarrow> isFat \<or> fuaGroupEmits this [packet]
             | Some pending \<Rightarrow> fuaGroupEmits this (pending @ [packet]))) \<and>
         (isStapA \<longrightarrow>
            (case depacketizeStapA (payload packet) of
               Inl e \<Rightarrow> True
             | Inr nalus \<Rightarrow>
                 filter (\<lambda>p. byteAt p 0 AND 0x1F \<noteq> NAL_TYPE_SEI) nalus \<noteq> [])))"

section \<open>Sequence numbers\<close>

lemma jsRem_nonneg: "0 \<le> a \<Longrightarrow> 0 < b \<Longrightarrow> jsRem a b = a mod b"
  by (cases "a = 0") (simp_all add: jsRem_def)

lemma createPacket_seq_in_range:
  assumes "- 0x10000 \<le> int (sequenceNumber rtp) + extraPackets this"
  shows "outSequenceNumber (createPacket this rtp data mk)
         = (int (sequenceNumber rtp) + extraPackets this) mod 0x10000"
proof -
  have "0 \<le> int (sequenceNumber rtp) + extraPackets this + 0x10000"
    using assms by simp
  then have "jsRem (int (sequenceNumber rtp) + extraPackets this + 0x10000) 0x10000
             = (int (sequenceNumber rtp) + extraPackets this + 0x10000) mod 0x10000"
    by (rule jsRem_nonneg) simp
  then show ?thesis
    by (simp add: createPacket_def)
qed

text \<open>
  C2. The claim: for every value of \<open>extraPackets\<close>, however negative, the sequence
  number that \<open>createPacket\<close> writes is the template's plus \<open>extraPackets\<close> modulo
  \<open>2^16\<close>, within \<open>[0, 2^16)\<close>. The code adds \<open>0x10000\<close> once before JavaScript's
  \<open>%\<close>: after 65537 dropped packets (\<open>extraPackets = -65537\<close>) a template with
  sequence number 0 is handed to the serializer with sequence number \<open>-1\<close>, where the
  claim gives 65535.
\<close>

theorem createPacket_seq_negative:
  "outSequenceNumber (createPacket
      ((newRepacketizer 1200 None None)\<lparr>extraPackets := - 65537\<rparr>)
      \<lparr>sequenceNumber = 0, marker = False, timestamp = 0, payload = [0x41, 0]\<rparr>
      [0x41, 0] False) = - 1
   \<and> (0 + (- 65537 :: int)) mod 0x10000 = 65535"
  by (simp add: createPacket_def jsRem_def newRepacketizer_def)

section \<open>Fragment sizes of packetizeFuA\<close>

lemma ceilDiv_bounds:
  assumes "0 < b"
  shows "a \<le> ceilDiv a b * b" and "ceilDiv a b * b < a + b"
proof -
  let ?q = "(a + b - 1) div b"
  have eq: "?q * b + (a + b - 1) mod b = a + b - 1"
    by simp
  have lt: "(a + b - 1) mod b < b"
    using assms by simp
  from eq lt assms show "a \<le> ceilDiv a b * b"
    unfolding ceilDiv_def by linarith
  from eq assms show "ceilDiv a b * b < a + b"
    unfolding ceilDiv_def by linarith
qed

lemma ceilDiv_ceiling: 
  assumes "0 < b"
  shows "int (ceilDiv a b) = \<lceil>real a / real b\<rceil>"
proof -
  have rb: "0 < real b" using assms by simp
  have "real a \<le> real (ceilDiv a b * b)"
    using ceilDiv_bounds(1)[OF assms, of a] by (simp only: of_nat_le_iff)
  then have up: "real a / real b \<le> real (ceilDiv a b)"
    using rb by (simp add: field_simps)
  have "real (ceilDiv a b * b) < real (a + b)"
    using ceilDiv_bounds(2)[OF assms, of a] by (simp only: of_nat_less_iff)
  then have lo: "real (ceilDiv a b) - 1 < real a / real b"
    using rb by (simp add: field_simps)
  have "\<lceil>real a / real b\<rceil> = int (ceilDiv a b)"
    by (rule ceiling_unique) (use up lo in simp_all)
  then show ?thesis by simp
qed

lemma fuaLoop_shape:
  "1 \<le> c \<or> r = m \<Longrightarrow> r \<le> m \<Longrightarrow> offset + r + m * c = length data \<Longrightarrow>
   \<exists>ps. fuaLoop data mid e c offset r hdr = Inr ps \<and>
        map length ps = map (\<lambda>i. length (if i + 1 = m then e else if i = 0 then hdr else mid) + (if i < r then c + 1 else c)) [0..<m]"
proof (induction m arbitrary: offset r hdr)
  case 0
  then show ?case by (simp add: fuaLoop.simps)
next
  case (Suc m)
  let ?sz = "if 0 < r then c + 1 else c"
  let ?r' = "if 0 < r then r - 1 else r"
  have lt: "offset < length data" using Suc.prems by (cases "r = 0") auto
  have nd: "\<not> (r = 0 \<and> c = 0)" using Suc.prems by auto
  have a1: "1 \<le> c \<or> ?r' = m" using Suc.prems by auto
  have a2: "?r' \<le> m" using Suc.prems by auto
  have a3: "offset + ?sz + ?r' + m * c = length data" using Suc.prems by auto
  from Suc.IH[OF a1 a2 a3, of mid] obtain qs where
    rec: "fuaLoop data mid e c (offset + ?sz) ?r' mid = Inr qs"
    and qs: "map length qs = map (\<lambda>i. length (if i + 1 = m then e else if i = 0 then mid else mid) + (if i < ?r' then c + 1 else c)) [0..<m]"
    by blast
  have endiff: "(offset + ?sz = length data) = (m = 0)"
  proof (cases "m = 0")
    case True
    with a2 a3 show ?thesis by simp
  next
    case False
    define k where "k = m * c"
    have "0 < k \<or> 0 < ?r'" using a1 False by (auto simp: k_def)
    moreover have "offset + ?sz + ?r' + k = length data" using a3 by (simp add: k_def)
    ultimately have "offset + ?sz \<noteq> length data" by linarith
    with False show ?thesis by simp
  qed
  have sub: "length (subarray data offset (offset + ?sz)) = ?sz"
    using a3 by (auto simp: subarray_def)
  have "fuaLoop data mid e c offset r hdr
        = Inr (((if offset + ?sz = length data then e else hdr) @ subarray data offset (offset + ?sz)) # qs)"
    using lt nd rec by (subst fuaLoop.simps) simp
  moreover have "map length (((if offset + ?sz = length data then e else hdr) @ subarray data offset (offset + ?sz)) # qs)
     = map (\<lambda>i. length (if i + 1 = Suc m then e else if i = 0 then hdr else mid) + (if i < r then c + 1 else c)) [0..<Suc m]"
    unfolding map_upt_Suc list.map qs using sub endiff
    by (auto simp del: One_nat_def)
  ultimately show ?case by blast
qed


lemma ceilDiv_pos: "0 < a \<Longrightarrow> 0 < b \<Longrightarrow> 0 < ceilDiv a b"
  using ceilDiv_bounds(1)[of b a] by (cases "ceilDiv a b") auto

lemma ceilDiv_le: 
  assumes "0 < b" shows "ceilDiv a b \<le> a"
proof (cases a)
  case 0
  with assms show ?thesis by (simp add: ceilDiv_def)
next
  case (Suc k)
  have "k \<le> k * b" using assms by (cases b) auto
  then have "a + b - 1 \<le> a * b" using Suc by simp
  then have "(a + b - 1) div b \<le> (a * b) div b" by (rule div_le_mono)
  then show ?thesis using assms by (simp add: ceilDiv_def)
qed

lemma packetizeFuA_whole:
  assumes "byteAt data 0 AND 0x1f \<noteq> NAL_TYPE_FU_A"
    and "1 \<le> length data - 1"
    and "1 \<le> fuaMax this"
  shows "packetizeFuA this data noStart noEnd =
     fuaLoop data
       [(byteAt data 0 AND 0xE0) OR NAL_TYPE_FU_A, byteAt data 0 AND 0x1F]
       (if noEnd then [(byteAt data 0 AND 0xE0) OR NAL_TYPE_FU_A, byteAt data 0 AND 0x1F]
        else [(byteAt data 0 AND 0xE0) OR NAL_TYPE_FU_A, (byteAt data 0 AND 0x1F) OR 0x40])
       ((length data - 1) div ceilDiv (length data - 1) (nat (fuaMax this)))
       1
       ((length data - 1) mod ceilDiv (length data - 1) (nat (fuaMax this)))
       (if noStart then [(byteAt data 0 AND 0xE0) OR NAL_TYPE_FU_A, byteAt data 0 AND 0x1F]
        else [(byteAt data 0 AND 0xE0) OR NAL_TYPE_FU_A, (byteAt data 0 AND 0x1F) OR 0x80])"
proof -
  have "\<not> length data \<le> Suc 0" using assms(2) by simp
  with assms(1,3) show ?thesis
    by (simp add: packetizeFuA_def fuaUnwrap_def fuaFragments_def Let_def NAL_HEADER_SIZE_def)
qed

lemma packetizeFuA_shape:
  assumes whole: "byteAt data 0 AND 0x1f \<noteq> NAL_TYPE_FU_A"
    and p: "1 \<le> length data - 1"
    and f: "1 \<le> fuaMax this"
  shows "\<exists>ps. packetizeFuA this data noStart noEnd = Inr ps \<and>
           map length ps =
             map (\<lambda>i. 2 + (if i < (length data - 1) mod ceilDiv (length data - 1) (nat (fuaMax this))
                            then (length data - 1) div ceilDiv (length data - 1) (nat (fuaMax this)) + 1
                            else (length data - 1) div ceilDiv (length data - 1) (nat (fuaMax this))))
               [0..<ceilDiv (length data - 1) (nat (fuaMax this))]"
proof -
  define P where "P = length data - 1"
  define n where "n = ceilDiv P (nat (fuaMax this))"
  have fpos: "0 < nat (fuaMax this)" using f by simp
  have Ppos: "0 < P" using p by (simp add: P_def)
  have npos: "0 < n" unfolding n_def by (rule ceilDiv_pos[OF Ppos fpos])
  have nle: "n \<le> P" unfolding n_def by (rule ceilDiv_le[OF fpos])
  have c1: "1 \<le> P div n" using npos nle by (simp add: Suc_le_eq div_greater_zero_iff)
  have r1: "P mod n \<le> n" using npos by (simp add: less_imp_le)
  have len: "1 + P mod n + n * (P div n) = length data"
    using p by (simp add: P_def)
  obtain mid e hdr where
    eq: "packetizeFuA this data noStart noEnd = fuaLoop data mid e (P div n) 1 (P mod n) hdr"
    and l: "length mid = 2" "length e = 2" "length hdr = 2"
  proof -
    show ?thesis
      by (rule that[OF packetizeFuA_whole[OF whole p f, of noStart noEnd, folded P_def, folded n_def]]) simp_all
  qed
  from fuaLoop_shape[of "P div n" "P mod n" n 1 data mid e hdr] c1 r1 len
  obtain ps where "fuaLoop data mid e (P div n) 1 (P mod n) hdr = Inr ps"
    and "map length ps = map (\<lambda>i. length (if i + 1 = n then e else if i = 0 then hdr else mid) + (if i < P mod n then P div n + 1 else P div n)) [0..<n]"
    by auto
  then show ?thesis
    using eq l unfolding P_def[symmetric] n_def[symmetric]
    by (auto simp: if_distrib[of length] cong: if_cong)
qed


text \<open>
  C6. For a whole NAL unit (type not 28) with \<open>payloadSize = data.length - 1 \<ge> 1\<close>
  and \<open>fuaMax \<ge> 1\<close>, \<open>packetizeFuA\<close> returns exactly
  \<open>ceil (payloadSize / fuaMax)\<close> fragments; after the 2 FU bytes, the first
  \<open>payloadSize mod numPackets\<close> of them carry \<open>payloadSize div numPackets + 1\<close>
  bytes and the others \<open>payloadSize div numPackets\<close>, so two fragments differ by at
  most one byte.
\<close>

theorem packetizeFuA_fragment_sizes:
  assumes "byteAt data 0 AND 0x1f \<noteq> NAL_TYPE_FU_A"
    and "1 \<le> length data - NAL_HEADER_SIZE"
    and "1 \<le> fuaMax this"
  shows "\<exists>ps. packetizeFuA this data noStart noEnd = Inr ps \<and>
           int (length ps) = \<lceil>real (length data - NAL_HEADER_SIZE) / real_of_int (fuaMax this)\<rceil> \<and>
           (\<forall>i < length ps. length (ps ! i) = FU_A_HEADER_SIZE +
               (if i < (length data - NAL_HEADER_SIZE) mod length ps
                then (length data - NAL_HEADER_SIZE) div length ps + 1
                else (length data - NAL_HEADER_SIZE) div length ps))"
proof -
  define n where "n = ceilDiv (length data - 1) (nat (fuaMax this))"
  from packetizeFuA_shape[OF assms(1) assms(2)[unfolded NAL_HEADER_SIZE_def] assms(3), of noStart noEnd]
  obtain ps where ps: "packetizeFuA this data noStart noEnd = Inr ps"
    and m: "map length ps = map (\<lambda>i. 2 + (if i < (length data - 1) mod n
                            then (length data - 1) div n + 1
                            else (length data - 1) div n)) [0..<n]"
    unfolding n_def by blast
  have len: "length ps = n"
    using arg_cong[OF m, of length] by simp
  have nth: "length (ps ! i) = 2 + (if i < (length data - 1) mod n
                            then (length data - 1) div n + 1
                            else (length data - 1) div n)" if "i < n" for i
  proof -
    have "length (ps ! i) = map length ps ! i" using that len by simp
    also have "\<dots> = 2 + (if i < (length data - 1) mod n
                            then (length data - 1) div n + 1
                            else (length data - 1) div n)"
      unfolding m using that by simp
    finally show ?thesis .
  qed
  have "int n = \<lceil>real (length data - 1) / real (nat (fuaMax this))\<rceil>"
    unfolding n_def using assms(3) by (intro ceilDiv_ceiling) simp
  also have "real (nat (fuaMax this)) = real_of_int (fuaMax this)"
    using assms(3) by simp
  finally have cl: "int n = \<lceil>real (length data - 1) / real_of_int (fuaMax this)\<rceil>" .
  have "\<forall>i < length ps. length (ps ! i) = 2 +
               (if i < (length data - 1) mod length ps
                then (length data - 1) div length ps + 1
                else (length data - 1) div length ps)"
    unfolding len using nth by blast
  moreover have "int (length ps) = \<lceil>real (length data - 1) / real_of_int (fuaMax this)\<rceil>"
    unfolding len by (rule cl)
  ultimately show ?thesis
    unfolding NAL_HEADER_SIZE_def FU_A_HEADER_SIZE_def using ps by blast
qed

theorem packetizeFuA_fragment_sizes_witness:
  "byteAt [0x65, 1, 2, 3, 4, 5, 6, 7] 0 AND 0x1f \<noteq> NAL_TYPE_FU_A
   \<and> 1 \<le> length [0x65 :: byte, 1, 2, 3, 4, 5, 6, 7] - NAL_HEADER_SIZE
   \<and> 1 \<le> fuaMax (newRepacketizer 5 None None)
   \<and> (\<exists>ps. packetizeFuA (newRepacketizer 5 None None) [0x65, 1, 2, 3, 4, 5, 6, 7] False False = Inr ps
         \<and> int (length ps) = \<lceil>real (length [0x65 :: byte, 1, 2, 3, 4, 5, 6, 7] - NAL_HEADER_SIZE)
                                / real_of_int (fuaMax (newRepacketizer 5 None None))\<rceil>
         \<and> (\<forall>i < length ps. length (ps ! i) = FU_A_HEADER_SIZE +
               (if i < (length [0x65 :: byte, 1, 2, 3, 4, 5, 6, 7] - NAL_HEADER_SIZE) mod length ps
                then (length [0x65 :: byte, 1, 2, 3, 4, 5, 6, 7] - NAL_HEADER_SIZE) div length ps + 1
                else (length [0x65 :: byte, 1, 2, 3, 4, 5, 6, 7] - NAL_HEADER_SIZE) div length ps)))"
proof -
  have h1: "byteAt [0x65, 1, 2, 3, 4, 5, 6, 7] 0 AND 0x1f \<noteq> NAL_TYPE_FU_A"
    by (simp add: byteAt_def NAL_TYPE_FU_A_def)
  have h2: "1 \<le> length [0x65 :: byte, 1, 2, 3, 4, 5, 6, 7] - NAL_HEADER_SIZE"
    by (simp add: NAL_HEADER_SIZE_def)
  have h3: "1 \<le> fuaMax (newRepacketizer 5 None None)"
    by (simp add: newRepacketizer_def FU_A_HEADER_SIZE_def)
  from packetizeFuA_fragment_sizes[OF h1 h2 h3, of False False] h1 h2 h3
  show ?thesis by blast
qed

lemma packetizeFuA_header_only:
  assumes "length data = 1"
  shows "packetizeFuA this data noStart noEnd = Inr []"
proof -
  have "length (subarray data FU_A_HEADER_SIZE (length data)) = 0"
    using assms by (simp add: subarray_def FU_A_HEADER_SIZE_def)
  then show ?thesis
    using assms
    by (simp add: packetizeFuA_def fuaUnwrap_def fuaFragments_def Let_def NAL_HEADER_SIZE_def)
qed

section \<open>Start and end bits of packetizeFuA\<close>

text \<open>
  C5. The claim: \<open>packetizeFuA(data, false, false)\<close> on a whole NAL unit gives
  fragments whose payloads, after the reconstructed NAL header, concatenate to \<open>data\<close>,
  with the start bit on the first fragment only and the end bit on the last only. A NAL
  unit that fits one fragment leaves the loop with \<open>fuHeaderEnd\<close> in place of
  \<open>fuHeaderStart\<close>: the NAL \<open>[0x65, 0xAA]\<close> with \<open>maxPacketSize = 1200\<close> comes
  out as the single fragment \<open>[0x7C, 0x45, 0xAA]\<close>, whose FU header \<open>0x45\<close> has the
  end bit and no start bit.
\<close>

theorem packetizeFuA_single_fragment:
  "packetizeFuA (newRepacketizer 1200 None None) [0x65, 0xAA] False False = Inr [[0x7C, 0x45, 0xAA]]
   \<and> (0x45 :: byte) AND 0x80 = 0"
  by code_simp

section \<open>packetizeOneStapA: the fallback and the aggregate\<close>

lemma stapHeader_type_F: "(h OR (b AND 0x80)) AND 0x1F = h AND (0x1F::byte)"
  by (simp add: bit.conj_disj_distrib2 and.assoc)

lemma stapHeader_type_NRI: "((h AND 0x9F) OR (b AND 0x60)) AND 0x1F = h AND (0x1F::byte)"
  by (simp add: bit.conj_disj_distrib2 and.assoc)

lemma stapHeader_type_init: "(NAL_TYPE_STAP_A OR (b AND 0xE0)) AND 0x1F = NAL_TYPE_STAP_A"
  by (simp add: bit.conj_disj_distrib2 and.assoc NAL_TYPE_STAP_A_def)

lemma stapALoop_refuses:
  "\<not> (int (length nalu) + int LENGTH_FIELD_SIZE \<le> a \<and> c < 9) \<Longrightarrow>
   stapALoop (nalu # datas) h a c p = Inr (nalu # datas, h, c, p)"
  by auto

lemma writeUInt16BE_length: "writeUInt16BE v = Inr packed \<Longrightarrow> length packed = 2"
  by (auto simp: writeUInt16BE_def split: if_splits)

lemma stapALoop_outcome:
  "(stapALoop datas h a c p = Inl RangeError \<and> list_ex (\<lambda>n. 0xFFFF < length n) datas)
   \<or> (\<exists>rest h' c' p'. stapALoop datas h a c p = Inr (rest, h', c', p') \<and>
           h' AND 0x1F = h AND 0x1F \<and>
           (datas \<noteq> [] \<and> int (length (hd datas)) + int LENGTH_FIELD_SIZE \<le> a \<and> c < 9 \<longrightarrow> c < c'))"
proof (induction datas arbitrary: h a c p)
  case Nil
  then show ?case by simp
next
  case (Cons nalu datas)
  show ?case
  proof (cases "int (length nalu) + int LENGTH_FIELD_SIZE \<le> a \<and> c < 9")
    case False
    then show ?thesis by auto
  next
    case True
    show ?thesis
    proof (cases "length nalu \<le> 0xFFFF")
      case False
      then have "writeUInt16BE (length nalu) = Inl RangeError"
        by (simp add: writeUInt16BE_def)
      with True False show ?thesis by (simp add: Let_def)
    next
      case len: True
      define h2 where "h2 = (if ((h OR (byteAt nalu 0 AND 0x80)) AND 0x60) < (byteAt nalu 0 AND 0x60)
                              then ((h OR (byteAt nalu 0 AND 0x80)) AND 0x9F) OR (byteAt nalu 0 AND 0x60)
                              else h OR (byteAt nalu 0 AND 0x80))"
      have ty: "h2 AND 0x1F = h AND 0x1F"
        by (simp add: h2_def stapHeader_type_F stapHeader_type_NRI)
      from len obtain packed where w: "writeUInt16BE (length nalu) = Inr packed"
        by (simp add: writeUInt16BE_def)
      have step: "stapALoop (nalu # datas) h a c p
          = stapALoop datas h2 (a - (int LENGTH_FIELD_SIZE + int (length nalu))) (c + 1) (p @ [packed, nalu])"
        using True w by (simp add: Let_def h2_def)
      from Cons.IH[of h2 "a - (int LENGTH_FIELD_SIZE + int (length nalu))" "c + 1" "p @ [packed, nalu]"]
      show ?thesis
      proof
        assume "stapALoop datas h2 (a - (int LENGTH_FIELD_SIZE + int (length nalu))) (c + 1) (p @ [packed, nalu]) = Inl RangeError
                \<and> list_ex (\<lambda>n. 0xFFFF < length n) datas"
        then show ?thesis unfolding step by simp
      next
        assume "\<exists>rest h' c' p'. stapALoop datas h2 (a - (int LENGTH_FIELD_SIZE + int (length nalu))) (c + 1) (p @ [packed, nalu]) = Inr (rest, h', c', p') \<and>
           h' AND 0x1F = h2 AND 0x1F \<and>
           (datas \<noteq> [] \<and> int (length (hd datas)) + int LENGTH_FIELD_SIZE \<le> a - (int LENGTH_FIELD_SIZE + int (length nalu)) \<and> c + 1 < 9 \<longrightarrow> c + 1 < c')"
        then obtain rest h' c' p' where
          r: "stapALoop datas h2 (a - (int LENGTH_FIELD_SIZE + int (length nalu))) (c + 1) (p @ [packed, nalu]) = Inr (rest, h', c', p')"
          and t: "h' AND 0x1F = h2 AND 0x1F"
          by blast
        from stapALoop_rest[OF r] have "c + 1 \<le> c'" by simp
        with r t ty show ?thesis unfolding step by simp
      qed
    qed
  qed
qed

lemma stapALoop_payload_mono:
  "stapALoop datas h a c p = Inr (rest, h', c', p') \<Longrightarrow> length (concat p) \<le> length (concat p')"
proof (induction datas arbitrary: h a c p)
  case Nil
  then show ?case by simp
next
  case (Cons nalu datas)
  show ?case
  proof (cases "int (length nalu) + int LENGTH_FIELD_SIZE \<le> a \<and> c < 9")
    case False
    with Cons.prems show ?thesis by auto
  next
    case True
    with Cons.prems obtain packed h2 where
      r: "stapALoop datas h2 (a - (int LENGTH_FIELD_SIZE + int (length nalu))) (c + 1)
                (p @ [packed, nalu]) = Inr (rest, h', c', p')"
      by (auto simp: Let_def split: sum.splits)
    from Cons.IH[OF r] show ?thesis by simp
  qed
qed

lemma stapALoop_payload_first:
  assumes "stapALoop (nalu # datas) h a c p = Inr (rest, h', c', p')" and "c < c'"
  shows "length nalu < length (concat p')"
proof (cases "int (length nalu) + int LENGTH_FIELD_SIZE \<le> a \<and> c < 9")
  case False
  with assms show ?thesis by auto
next
  case True
  with assms(1) obtain packed h2 where
    w: "writeUInt16BE (length nalu) = Inr packed"
    and r: "stapALoop datas h2 (a - (int LENGTH_FIELD_SIZE + int (length nalu))) (c + 1)
              (p @ [packed, nalu]) = Inr (rest, h', c', p')"
    by (auto simp: Let_def split: sum.splits)
  from stapALoop_payload_mono[OF r] writeUInt16BE_length[OF w] show ?thesis by simp
qed

text \<open>
  C9, as the code has it. The budget of \<open>packetizeOneStapA\<close> starts at
  \<open>maxPacketSize - STAP_A_HEADER_SIZE\<close>, which is \<open>maxPacketSize - 3\<close>, and the
  admission test asks for \<open>nalu.length + 2\<close> of it. For a non-empty queue the counter
  stays at 0 and the raw first NAL is popped and returned exactly when the first NAL
  fails that test, \<open>nalu.length + 2 > maxPacketSize - 3\<close>. In every other case the
  counter is positive and the result is a STAP-A packet whose first byte has type 24,
  never the raw first NAL; the one way out of that is \<open>writeUInt16BE\<close> throwing on an
  admitted NAL of more than 65535 bytes.
\<close>

theorem packetizeOneStapA_cases:
  assumes "datas \<noteq> []"
  shows "if maxPacketSize this - int STAP_A_HEADER_SIZE < int (length (hd datas)) + int LENGTH_FIELD_SIZE
         then (\<exists>h p. stapALoop datas (NAL_TYPE_STAP_A OR (byteAt (hd datas) 0 AND 0xE0))
                        (maxPacketSize this - int STAP_A_HEADER_SIZE) 0 [] = Inr (datas, h, 0, p))
              \<and> packetizeOneStapA this datas = Inr (hd datas, tl datas)
         else packetizeOneStapA this datas \<noteq> Inr (hd datas, tl datas)
              \<and> ((packetizeOneStapA this datas = Inl RangeError
                   \<and> list_ex (\<lambda>n. 0xFFFF < length n) datas)
                  \<or> (\<exists>rest h c p. stapALoop datas (NAL_TYPE_STAP_A OR (byteAt (hd datas) 0 AND 0xE0))
                        (maxPacketSize this - int STAP_A_HEADER_SIZE) 0 [] = Inr (rest, h, c, p)
                       \<and> 0 < c
                       \<and> packetizeOneStapA this datas = Inr (h # concat p, rest)
                       \<and> h AND 0x1F = NAL_TYPE_STAP_A))"
proof -
  obtain nalu ds where d: "datas = nalu # ds" using assms(1) by (cases datas) auto
  let ?h0 = "NAL_TYPE_STAP_A OR (byteAt (hd datas) 0 AND 0xE0)"
  let ?a = "maxPacketSize this - int STAP_A_HEADER_SIZE"
  show ?thesis
  proof (cases "?a < int (length (hd datas)) + int LENGTH_FIELD_SIZE")
    case True
    then have "stapALoop datas ?h0 ?a 0 [] = Inr (datas, ?h0, 0, [])"
      unfolding d by (intro stapALoop_refuses) simp
    then show ?thesis using True assms(1)
      by (simp add: packetizeOneStapA_def)
  next
    case False
    from stapALoop_outcome[of datas ?h0 ?a 0 "[]"]
    show ?thesis
    proof
      assume e: "stapALoop datas ?h0 ?a 0 [] = Inl RangeError \<and> list_ex (\<lambda>n. 0xFFFF < length n) datas"
      then have "packetizeOneStapA this datas = Inl RangeError"
        using assms(1) by (simp add: packetizeOneStapA_def)
      with e False show ?thesis by simp
    next
      assume "\<exists>rest h' c' p'. stapALoop datas ?h0 ?a 0 [] = Inr (rest, h', c', p') \<and>
           h' AND 0x1F = ?h0 AND 0x1F \<and>
           (datas \<noteq> [] \<and> int (length (hd datas)) + int LENGTH_FIELD_SIZE \<le> ?a \<and> (0::nat) < 9 \<longrightarrow> 0 < c')"
      with False assms(1) obtain rest h c p where
        r: "stapALoop datas ?h0 ?a 0 [] = Inr (rest, h, c, p)"
        and t: "h AND 0x1F = ?h0 AND 0x1F" and c: "0 < c"
        by auto
      from t have ty: "h AND 0x1F = NAL_TYPE_STAP_A" by (simp only: stapHeader_type_init)
      from r c assms(1) have res: "packetizeOneStapA this datas = Inr (h # concat p, rest)"
        by (simp add: packetizeOneStapA_def)
      from stapALoop_payload_first[OF r[unfolded d] c] have "length (hd datas) \<noteq> length (h # concat p)"
        by (simp add: d)
      then have "h # concat p \<noteq> hd datas" by (rule contrapos_nn) (simp only:)
      with res have ne: "packetizeOneStapA this datas \<noteq> Inr (hd datas, tl datas)" by simp
      from r c res ty ne False show ?thesis by auto
    qed
  qed
qed

theorem packetizeOneStapA_cases_witness:
  "[[0x67, 1, 2], [0x68, 3 :: byte]] \<noteq> []
   \<and> packetizeOneStapA (newRepacketizer 7 None None) [[0x67, 1, 2], [0x68, 3]]
       = Inr ([0x67, 1, 2], [[0x68, 3]])
   \<and> packetizeOneStapA (newRepacketizer 10 None None) [[0x67, 1, 2], [0x68, 3]]
       \<noteq> Inr ([0x67, 1, 2], [[0x68, 3]])
   \<and> packetizeOneStapA (newRepacketizer 10 None None) [[0x67, 1, 2], [0x68, 3]]
       = Inr ([0x78, 0, 3, 0x67, 1, 2], [[0x68, 3]])"
proof -
  have h1: "[[0x67, 1, 2], [0x68, 3 :: byte]] \<noteq> []" by simp
  have a: "packetizeOneStapA (newRepacketizer 7 None None) [[0x67, 1, 2], [0x68, 3]]
       = Inr ([0x67, 1, 2], [[0x68, 3]])"
    using packetizeOneStapA_cases[OF h1, of "newRepacketizer 7 None None"]
    by (simp add: newRepacketizer_def STAP_A_HEADER_SIZE_def NAL_HEADER_SIZE_def LENGTH_FIELD_SIZE_def)
  have b: "packetizeOneStapA (newRepacketizer 10 None None) [[0x67, 1, 2], [0x68, 3]]
       \<noteq> Inr ([0x67, 1, 2], [[0x68, 3]])"
    using packetizeOneStapA_cases[OF h1, of "newRepacketizer 10 None None"]
    by (simp add: newRepacketizer_def STAP_A_HEADER_SIZE_def NAL_HEADER_SIZE_def LENGTH_FIELD_SIZE_def)
  have c: "packetizeOneStapA (newRepacketizer 10 None None) [[0x67, 1, 2], [0x68, 3]]
       = Inr ([0x78, 0, 3, 0x67, 1, 2], [[0x68, 3]])"
    by (simp add: packetizeOneStapA_def writeUInt16BE_def newRepacketizer_def byteAt_def Let_def
        NAL_TYPE_STAP_A_def STAP_A_HEADER_SIZE_def NAL_HEADER_SIZE_def LENGTH_FIELD_SIZE_def)
  from h1 a b c show ?thesis by simp
qed

text \<open>
  The claim puts the fallback at "a single NAL plus framing already exceeds
  \<open>maxPacketSize\<close>". With \<open>maxPacketSize = 10\<close> a NAL of 6 bytes and its framing
  (the STAP-A header byte and the 2-byte length) make 9 bytes, which do not exceed 10,
  and the code still returns the NAL unframed: the budget is 7 and the test asks for 8.
\<close>

theorem packetizeOneStapA_fallback_within_size:
  "int (length [0x41, 1, 2, 3, 4, 5 :: byte]) + int STAP_A_HEADER_SIZE
     \<le> maxPacketSize (newRepacketizer 10 None None)
   \<and> packetizeOneStapA (newRepacketizer 10 None None) [[0x41, 1, 2, 3, 4, 5]]
       = Inr ([0x41, 1, 2, 3, 4, 5], [])"
  by (simp add: packetizeOneStapA_def newRepacketizer_def byteAt_def Let_def
      NAL_TYPE_STAP_A_def STAP_A_HEADER_SIZE_def NAL_HEADER_SIZE_def LENGTH_FIELD_SIZE_def)

section \<open>STAP-A round trip\<close>

lemma u16_decode:
  assumes "v \<le> 0xFFFF"
  shows "unat (of_nat (v div 256) :: byte) * 256 + unat (of_nat (v mod 256) :: byte) = v"
  using assms by (simp add: unat_of_nat take_bit_nat_eq_self_iff)

lemma stapALoop_all:
  assumes "fitsBudget a ns" and "c + length ns \<le> 9" and "\<forall>n \<in> set ns. length n \<le> 0xFFFF"
  shows "\<exists>h'. stapALoop ns h a c p
           = Inr ([], h', c + length ns, p @ concat (map (\<lambda>n. [lengthField n, n]) ns))"
  using assms
proof (induction ns arbitrary: h a c p)
  case Nil
  then show ?case by simp
next
  case (Cons n ns)
  from Cons.prems have adm: "int (length n) + int LENGTH_FIELD_SIZE \<le> a \<and> c < 9"
    and fits: "fitsBudget (a - (int LENGTH_FIELD_SIZE + int (length n))) ns"
    and cnt: "(c + 1) + length ns \<le> 9"
    and lens: "\<forall>n \<in> set ns. length n \<le> 0xFFFF"
    and w: "writeUInt16BE (length n) = Inr (lengthField n)"
    by (auto simp: writeUInt16BE_def lengthField_def)
  define h2 where "h2 = (if ((h OR (byteAt n 0 AND 0x80)) AND 0x60) < (byteAt n 0 AND 0x60)
                          then ((h OR (byteAt n 0 AND 0x80)) AND 0x9F) OR (byteAt n 0 AND 0x60)
                          else h OR (byteAt n 0 AND 0x80))"
  have step: "stapALoop (n # ns) h a c p
      = stapALoop ns h2 (a - (int LENGTH_FIELD_SIZE + int (length n))) (c + 1) (p @ [lengthField n, n])"
    using adm w by (simp add: Let_def h2_def)
  from Cons.IH[OF fits cnt lens, of h2 "p @ [lengthField n, n]"] show ?case
    unfolding step by simp
qed

lemma readUInt16BE_lengthField:
  assumes "length n \<le> 0xFFFF"
  shows "readUInt16BE (X @ lengthField n @ Y) (length X) = Inr (length n)"
  using assms u16_decode[OF assms]
  by (simp add: readUInt16BE_def lengthField_def nth_append)

lemma depacketizeLoop_encoded:
  assumes "\<forall>n \<in> set ns. length n \<le> 0xFFFF" and "lp \<le> length X"
  shows "depacketizeLoop (X @ concat (map (\<lambda>n. lengthField n @ n) ns)) ret (Some lp) (length X)
         = Inr (ret @ [drop lp X] @ ns)"
  using assms
proof (induction ns arbitrary: X ret lp)
  case Nil
  then show ?case by (simp add: depacketizeLoop.simps subarray_def)
next
  case (Cons n ns)
  let ?rest = "concat (map (\<lambda>n. lengthField n @ n) ns)"
  let ?data = "X @ concat (map (\<lambda>n. lengthField n @ n) (n # ns))"
  let ?X' = "X @ lengthField n @ n"
  have data: "?data = ?X' @ ?rest" by simp
  have lt: "length X < length ?data" by (simp add: lengthField_def)
  have rd: "readUInt16BE ?data (length X) = Inr (length n)"
    using readUInt16BE_lengthField[of n X "n @ ?rest"] Cons.prems(1) by simp
  have pos: "length X + LENGTH_FIELD_SIZE + length n = length ?X'"
    by (simp add: lengthField_def LENGTH_FIELD_SIZE_def)
  have sub: "subarray ?data lp (length X) = drop lp X"
    using Cons.prems(2) by (simp add: subarray_def)
  have "depacketizeLoop ?data ret (Some lp) (length X)
        = depacketizeLoop ?data (ret @ [drop lp X]) (Some (length X + LENGTH_FIELD_SIZE))
            (length X + LENGTH_FIELD_SIZE + length n)"
    using lt rd sub by (subst depacketizeLoop.simps) (simp del: concat.simps list.map)
  also have "\<dots> = depacketizeLoop ?data (ret @ [drop lp X]) (Some (length X + LENGTH_FIELD_SIZE)) (length ?X')"
    by (simp only: pos)
  also have "\<dots> = Inr ((ret @ [drop lp X]) @ [drop (length X + LENGTH_FIELD_SIZE) ?X'] @ ns)"
    unfolding data using Cons.prems(1)
    by (intro Cons.IH) (simp_all add: lengthField_def LENGTH_FIELD_SIZE_def)
  also have "drop (length X + LENGTH_FIELD_SIZE) ?X' = n"
    by (simp add: lengthField_def LENGTH_FIELD_SIZE_def)
  finally show ?case by simp
qed

lemma depacketizeStapA_encoded:
  assumes "\<forall>n \<in> set ns. length n \<le> 0xFFFF" and "ns \<noteq> []"
  shows "depacketizeStapA (h # concat (map (\<lambda>n. lengthField n @ n) ns)) = Inr ns"
proof -
  obtain n ms where ns: "ns = n # ms" using assms(2) by (cases ns) auto
  let ?rest = "concat (map (\<lambda>n. lengthField n @ n) ms)"
  let ?data = "h # concat (map (\<lambda>n. lengthField n @ n) ns)"
  let ?X' = "[h] @ lengthField n @ n"
  have data: "?data = ?X' @ ?rest" by (simp add: ns)
  have rd: "readUInt16BE ?data 1 = Inr (length n)"
    using readUInt16BE_lengthField[of n "[h]" "n @ ?rest"] assms(1) by (simp add: ns)
  have lt: "1 < length ?data" by (simp add: ns lengthField_def)
  have pos: "1 + LENGTH_FIELD_SIZE + length n = length ?X'"
    by (simp add: lengthField_def LENGTH_FIELD_SIZE_def)
  have "depacketizeStapA ?data = depacketizeLoop ?data [] (Some (1 + LENGTH_FIELD_SIZE))
            (1 + LENGTH_FIELD_SIZE + length n)"
    unfolding depacketizeStapA_def NAL_HEADER_SIZE_def
    using lt rd by (subst depacketizeLoop.simps) (simp del: concat.simps list.map)
  also have "\<dots> = depacketizeLoop ?data [] (Some (1 + LENGTH_FIELD_SIZE)) (length ?X')"
    by (simp only: pos)
  also have "\<dots> = Inr ([] @ [drop (1 + LENGTH_FIELD_SIZE) ?X'] @ ms)"
    unfolding data using assms(1)
    by (intro depacketizeLoop_encoded) (simp_all add: ns lengthField_def LENGTH_FIELD_SIZE_def)
  also have "drop (1 + LENGTH_FIELD_SIZE) ?X' = n"
    by (simp add: lengthField_def LENGTH_FIELD_SIZE_def)
  finally show ?thesis by (simp add: ns)
qed

text \<open>
  C7, as the code has it. For a non-empty list of at most 9 NALs that all pass the
  admission test against the remaining budget and are each at most 65535 bytes long,
  \<open>packetizeOneStapA\<close> consumes the whole list and \<open>depacketizeStapA\<close> of its
  packet gives the list back.
\<close>

theorem stapA_round_trip:
  assumes "nalus \<noteq> []" and "length nalus \<le> 9"
    and "fitsBudget (maxPacketSize this - int STAP_A_HEADER_SIZE) nalus"
    and "\<forall>n \<in> set nalus. length n \<le> 0xFFFF"
  shows "\<exists>pkt. packetizeOneStapA this nalus = Inr (pkt, []) \<and> depacketizeStapA pkt = Inr nalus"
proof -
  from stapALoop_all[OF assms(3), of 0 "NAL_TYPE_STAP_A OR (byteAt (hd nalus) 0 AND 0xE0)" "[]"] assms(2,4)
  obtain h where loop: "stapALoop nalus (NAL_TYPE_STAP_A OR (byteAt (hd nalus) 0 AND 0xE0))
      (maxPacketSize this - int STAP_A_HEADER_SIZE) 0 []
      = Inr ([], h, length nalus, concat (map (\<lambda>n. [lengthField n, n]) nalus))"
    by auto
  have cc: "concat (concat (map (\<lambda>n. [lengthField n, n]) nalus)) = concat (map (\<lambda>n. lengthField n @ n) nalus)"
    by (induction nalus) simp_all
  have "packetizeOneStapA this nalus = Inr (h # concat (map (\<lambda>n. lengthField n @ n) nalus), [])"
    using loop assms(1) cc by (simp add: packetizeOneStapA_def)
  moreover have "depacketizeStapA (h # concat (map (\<lambda>n. lengthField n @ n) nalus)) = Inr nalus"
    by (rule depacketizeStapA_encoded[OF assms(4) assms(1)])
  ultimately show ?thesis by blast
qed

theorem stapA_round_trip_witness:
  "[[0x67, 1, 2], [0x68, 3 :: byte]] \<noteq> []
   \<and> length [[0x67, 1, 2], [0x68, 3 :: byte]] \<le> 9
   \<and> fitsBudget (maxPacketSize (newRepacketizer 1200 None None) - int STAP_A_HEADER_SIZE)
        [[0x67, 1, 2], [0x68, 3]]
   \<and> length [0x67, 1, 2 :: byte] \<le> 0xFFFF \<and> length [0x68, 3 :: byte] \<le> 0xFFFF
   \<and> (\<exists>pkt. packetizeOneStapA (newRepacketizer 1200 None None) [[0x67, 1, 2], [0x68, 3]] = Inr (pkt, [])
          \<and> depacketizeStapA pkt = Inr [[0x67, 1, 2], [0x68, 3]])"
proof -
  have h1: "[[0x67, 1, 2], [0x68, 3 :: byte]] \<noteq> []" by simp
  have h2: "length [[0x67, 1, 2], [0x68, 3 :: byte]] \<le> 9" by simp
  have h3: "fitsBudget (maxPacketSize (newRepacketizer 1200 None None) - int STAP_A_HEADER_SIZE)
        [[0x67, 1, 2], [0x68, 3]]"
    by (simp add: newRepacketizer_def STAP_A_HEADER_SIZE_def NAL_HEADER_SIZE_def LENGTH_FIELD_SIZE_def)
  have h4: "\<forall>n \<in> set [[0x67, 1, 2], [0x68, 3 :: byte]]. length n \<le> 0xFFFF" by simp
  from stapA_round_trip[OF h1 h2 h3 h4] h1 h2 h3 show ?thesis by simp
qed

text \<open>
  The claim has no bound on the length of a NAL: with \<open>maxPacketSize = 70000\<close> a NAL
  of 65536 bytes passes the admission test, and \<open>writeUInt16BE\<close> throws on its length.
\<close>

theorem stapA_round_trip_long_nal:
  "[replicate 65536 (0x41 :: byte)] \<noteq> [] \<and> replicate 65536 (0x41 :: byte) \<noteq> []
   \<and> length [replicate 65536 (0x41 :: byte)] \<le> 9
   \<and> fitsBudget (maxPacketSize (newRepacketizer 70000 None None) - int STAP_A_HEADER_SIZE)
        [replicate 65536 0x41]
   \<and> packetizeOneStapA (newRepacketizer 70000 None None) [replicate 65536 0x41] = Inl RangeError"
proof -
  have "stapALoop [replicate 65536 (0x41 :: byte)] h 69997 0 [] = Inl RangeError" for h
    by (simp add: writeUInt16BE_def LENGTH_FIELD_SIZE_def Let_def)
  then show ?thesis
    by (simp add: packetizeOneStapA_def newRepacketizer_def
        STAP_A_HEADER_SIZE_def NAL_HEADER_SIZE_def LENGTH_FIELD_SIZE_def)
qed

section \<open>Evaluating repacketize\<close>

lemmas model_defs = repacketize_def repacketizeSingle_def repacketizeFuA_def repacketizeStapA_def
  flushOnTimestamp_def flushPendingFuA_def flushPendingStapA_def maybeSendSpsPps_def
  createRtpPackets_def createPacket_def bindE_def packetizeOneStapA_def writeUInt16BE_def
  newRepacketizer_def byteAt_def Let_def jsRem_def subarray_def defragment_def
  NAL_TYPE_STAP_A_def NAL_TYPE_FU_A_def NAL_TYPE_IDR_def NAL_TYPE_SEI_def NAL_TYPE_SPS_def
  NAL_TYPE_PPS_def STAP_A_HEADER_SIZE_def NAL_HEADER_SIZE_def LENGTH_FIELD_SIZE_def
  FU_A_HEADER_SIZE_def

text \<open>
  C3. The claim: a packet goes out with the marker bit exactly when it is the last
  emission for an input packet that had the marker bit, and the STAP-A synthesized
  before an IDR does not carry it. \<open>maybeSendSpsPps\<close> calls \<open>createRtpPackets\<close>
  without \<open>hadMarker\<close>, which then defaults to the marker of the IDR packet, and the
  synthesized STAP-A is the last (and only) element of its list: for an IDR packet with
  the marker bit and no SPS seen, both the STAP-A and the IDR go out with the marker.
\<close>

theorem repacketize_idr_marker_on_stapA:
  "repacketize (newRepacketizer 1200 (Some [0x67, 1, 2]) (Some [0x68, 3]))
     \<lparr>sequenceNumber = 10, marker = True, timestamp = 1000, payload = [0x65, 9, 9, 9]\<rparr>
   = Inr (\<lparr>extraPackets = 1, fuaMax = 1198, maxPacketSize = 1200,
           pendingStapA = None, pendingFuA = None, seenSps = False,
           sps = Some [0x67, 1, 2], pps = Some [0x68, 3]\<rparr>,
          [\<lparr>outSequenceNumber = 10, outMarker = True, outTimestamp = 1000,
            outPayload = [0x78, 0, 3, 0x67, 1, 2, 0, 2, 0x68, 3]\<rparr>,
           \<lparr>outSequenceNumber = 11, outMarker = True, outTimestamp = 1000,
            outPayload = [0x65, 9, 9, 9]\<rparr>])"
  by (simp add: model_defs packetizeStapA.simps)

text \<open>
  C8. The claim: no emitted packet carries a NAL of type 6 (SEI), also not as the
  original type inside FU-A fragments. The STAP-A branch and the single-NAL branch drop
  SEI; the FU-A branch does not look at the original type. A SEI NAL that arrives as two
  FU-A fragments (start \<open>[0x7C, 0x86, 0xAA]\<close>, end \<open>[0x7C, 0x46, 0xBB]\<close>) is buffered,
  reassembled and sent as the FU-A fragment \<open>[0x7C, 0x46, 0xAA, 0xBB]\<close>, whose
  original NAL type is 6.
\<close>

theorem repacketize_fua_sei_emitted:
  "repacketize (newRepacketizer 1200 None None)
     \<lparr>sequenceNumber = 10, marker = False, timestamp = 1000, payload = [0x7C, 0x86, 0xAA]\<rparr>
   = Inr ((newRepacketizer 1200 None None)
            \<lparr>pendingFuA := Some [\<lparr>sequenceNumber = 10, marker = False, timestamp = 1000,
                                  payload = [0x7C, 0x86, 0xAA]\<rparr>]\<rparr>, [])
   \<and> repacketize ((newRepacketizer 1200 None None)
            \<lparr>pendingFuA := Some [\<lparr>sequenceNumber = 10, marker = False, timestamp = 1000,
                                  payload = [0x7C, 0x86, 0xAA]\<rparr>]\<rparr>)
     \<lparr>sequenceNumber = 11, marker = True, timestamp = 1000, payload = [0x7C, 0x46, 0xBB]\<rparr>
   = Inr ((newRepacketizer 1200 None None)\<lparr>extraPackets := - 1\<rparr>,
          [\<lparr>outSequenceNumber = 10, outMarker = True, outTimestamp = 1000,
            outPayload = [0x7C, 0x46, 0xAA, 0xBB]\<rparr>])
   \<and> byteAt [0x7C, 0x46, 0xAA, 0xBB] 1 AND 0x1F = NAL_TYPE_SEI"
proof -
  have f: "packetizeFuA ((newRepacketizer 1200 None None)
             \<lparr>pendingFuA := Some [\<lparr>sequenceNumber = 10, marker = False, timestamp = 1000,
                                   payload = [0x7C, 0x86, 0xAA]\<rparr>,
                                  \<lparr>sequenceNumber = 11, marker = True, timestamp = 1000,
                                   payload = [0x7C, 0x46, 0xBB]\<rparr>]\<rparr>)
             [0x66, 0xAA, 0xBB] False False = Inr [[0x7C, 0x46, 0xAA, 0xBB]]"
    by code_simp
  show ?thesis
    using f by (simp add: model_defs)
qed


section \<open>createRtpPackets and the flush of an empty FU-A group\<close>

lemma createRtpPacketsLoop_state:
  "fst (createRtpPacketsLoop this packet nalus index len ret hadMarker)
   = this\<lparr>extraPackets := extraPackets this
        + (if index = 0 then (if nalus = [] then 0 else int (length nalus) - 1) else int (length nalus))\<rparr>"
proof (induction nalus arbitrary: this index ret)
  case Nil
  then show ?case by simp
next
  case (Cons a nalus)
  show ?case
    by (cases "index = 0") (simp_all add: Let_def Cons.IH)
qed

lemma createRtpPacketsLoop_payloads:
  "map outPayload (snd (createRtpPacketsLoop this packet nalus index len ret hadMarker))
   = map outPayload ret @ nalus"
proof (induction nalus arbitrary: this index ret)
  case Nil
  then show ?case by simp
next
  case (Cons a nalus)
  show ?case
    by (simp add: Let_def Cons.IH createPacket_def)
qed

lemma createRtpPackets_state:
  "fst (createRtpPackets this packet nalus ret hadMarker)
   = this\<lparr>extraPackets := extraPackets this + (if nalus = [] then 0 else int (length nalus) - 1)\<rparr>"
  by (simp add: createRtpPackets_def createRtpPacketsLoop_state)

lemma createRtpPackets_payloads:
  "map outPayload (snd (createRtpPackets this packet nalus ret hadMarker))
   = map outPayload ret @ nalus"
  by (simp add: createRtpPackets_def createRtpPacketsLoop_payloads)

lemma createRtpPackets_Nil: "createRtpPackets this packet [] ret hadMarker = (this, ret)"
  by (simp add: createRtpPackets_def)

text \<open>
  C10, as the code has it. \<open>packetizeFuA\<close> of a buffer of length 1 is the empty list.
  So the flush of a pending FU-A group whose fragments have no byte after the 2 FU bytes
  and that passes the checks of \<open>flushPendingFuA\<close> (one original NAL type, consecutive
  sequence numbers) pushes nothing onto \<open>ret\<close>, and still takes the size of the group
  minus 1 from \<open>extraPackets\<close>.
\<close>

theorem empty_fua_group:
  "(length data = 1 \<longrightarrow> packetizeFuA this0 data noStart noEnd = Inr [])
   \<and> (pendingFuA this = Some pending \<and> pending \<noteq> []
        \<and> (\<forall>p \<in> set pending. length (payload p) \<le> FU_A_HEADER_SIZE)
        \<and> fuaConsistent (byteAt (payload (hd pending)) 1 AND 0x1f) None pending
      \<longrightarrow> flushPendingFuA this ret
          = Inr (this\<lparr>extraPackets := extraPackets this - (int (length pending) - 1),
                       pendingFuA := None\<rparr>, ret))"
proof (intro conjI impI)
  assume "length data = 1"
  then show "packetizeFuA this0 data noStart noEnd = Inr []"
    by (rule packetizeFuA_header_only)
next
  assume a: "pendingFuA this = Some pending \<and> pending \<noteq> []
        \<and> (\<forall>p \<in> set pending. length (payload p) \<le> FU_A_HEADER_SIZE)
        \<and> fuaConsistent (byteAt (payload (hd pending)) 1 AND 0x1f) None pending"
  then obtain first others where g: "pending = first # others" by (cases pending) auto
  from a have "\<forall>p \<in> set pending. subarray (payload p) FU_A_HEADER_SIZE (length (payload p)) = []"
    by (simp add: subarray_def)
  then have "concat (map (\<lambda>packet. subarray (payload packet) FU_A_HEADER_SIZE (length (payload packet))) pending) = []"
    by simp
  then have one: "length (defragment pending) = 1"
    by (simp add: defragment_def Let_def del: list.map)
  have pk: "packetizeFuA this (defragment pending) ns ne = Inr []" for ns ne
    by (rule packetizeFuA_header_only[OF one])
  show "flushPendingFuA this ret
          = Inr (this\<lparr>extraPackets := extraPackets this - (int (length pending) - 1),
                       pendingFuA := None\<rparr>, ret)"
    using a pk unfolding g
    by (simp add: flushPendingFuA_def Let_def bindE_def createRtpPackets_Nil)
qed

theorem empty_fua_group_witness:
  "length [0x65 :: byte] = 1
   \<and> packetizeFuA (newRepacketizer 1200 None None) [0x65] False False = Inr []
   \<and> pendingFuA ((newRepacketizer 1200 None None)\<lparr>pendingFuA := Some
          [\<lparr>sequenceNumber = 10, marker = False, timestamp = 7, payload = [0x7C, 0x85]\<rparr>,
           \<lparr>sequenceNumber = 11, marker = True, timestamp = 7, payload = [0x7C, 0x45]\<rparr>]\<rparr>)
       = Some [\<lparr>sequenceNumber = 10, marker = False, timestamp = 7, payload = [0x7C, 0x85]\<rparr>,
               \<lparr>sequenceNumber = 11, marker = True, timestamp = 7, payload = [0x7C, 0x45]\<rparr>]
   \<and> fuaConsistent (byteAt [0x7C, 0x85] 1 AND 0x1f) None
         [\<lparr>sequenceNumber = 10, marker = False, timestamp = 7, payload = [0x7C, 0x85]\<rparr>,
          \<lparr>sequenceNumber = 11, marker = True, timestamp = 7, payload = [0x7C, 0x45]\<rparr>]
   \<and> flushPendingFuA ((newRepacketizer 1200 None None)\<lparr>pendingFuA := Some
          [\<lparr>sequenceNumber = 10, marker = False, timestamp = 7, payload = [0x7C, 0x85]\<rparr>,
           \<lparr>sequenceNumber = 11, marker = True, timestamp = 7, payload = [0x7C, 0x45]\<rparr>]\<rparr>) []
       = Inr ((newRepacketizer 1200 None None)\<lparr>extraPackets := - 1\<rparr>, [])"
  using empty_fua_group[of "[0x65]" "newRepacketizer 1200 None None" False False
      "(newRepacketizer 1200 None None)\<lparr>pendingFuA := Some
          [\<lparr>sequenceNumber = 10, marker = False, timestamp = 7, payload = [0x7C, 0x85]\<rparr>,
           \<lparr>sequenceNumber = 11, marker = True, timestamp = 7, payload = [0x7C, 0x45]\<rparr>]\<rparr>"
      "[\<lparr>sequenceNumber = 10, marker = False, timestamp = 7, payload = [0x7C, 0x85]\<rparr>,
        \<lparr>sequenceNumber = 11, marker = True, timestamp = 7, payload = [0x7C, 0x45]\<rparr>]" "[]"]
  by (simp add: byteAt_def FU_A_HEADER_SIZE_def newRepacketizer_def)

text \<open>
  Without the checks the second half of the claim fails: two fragments without payload
  bytes whose sequence numbers are 10 and 12 are discarded at the early return, before
  the line that changes \<open>extraPackets\<close>. The group arises in \<open>repacketize\<close> when the
  end fragment arrives after a lost one.
\<close>

theorem empty_fua_group_with_gap:
  "flushPendingFuA ((newRepacketizer 1200 None None)\<lparr>pendingFuA := Some
          [\<lparr>sequenceNumber = 10, marker = False, timestamp = 7, payload = [0x7C, 0x85]\<rparr>,
           \<lparr>sequenceNumber = 12, marker = True, timestamp = 7, payload = [0x7C, 0x45]\<rparr>]\<rparr>) []
     = Inr (newRepacketizer 1200 None None, [])
   \<and> extraPackets (newRepacketizer 1200 None None)
       \<noteq> extraPackets ((newRepacketizer 1200 None None)\<lparr>pendingFuA := Some
            [\<lparr>sequenceNumber = 10, marker = False, timestamp = 7, payload = [0x7C, 0x85]\<rparr>,
             \<lparr>sequenceNumber = 12, marker = True, timestamp = 7, payload = [0x7C, 0x45]\<rparr>]\<rparr>)
          - (int (length
               [\<lparr>sequenceNumber = 10, marker = False, timestamp = 7, payload = [0x7C, 0x85]\<rparr>,
                \<lparr>sequenceNumber = 12, marker = True, timestamp = 7, payload = [0x7C, 0x45]\<rparr>]) - 1)
   \<and> repacketize ((newRepacketizer 1200 None None)\<lparr>pendingFuA := Some
          [\<lparr>sequenceNumber = 10, marker = False, timestamp = 7, payload = [0x7C, 0x85]\<rparr>]\<rparr>)
        \<lparr>sequenceNumber = 12, marker = True, timestamp = 7, payload = [0x7C, 0x45]\<rparr>
     = Inr (newRepacketizer 1200 None None, [])"
  by (simp add: model_defs)

section \<open>The size of emitted payloads\<close>


lemma fuaLoop_bound:
  assumes "1 \<le> c \<or> r = m" and "r \<le> m" and "offset + r + m * c = length data"
    and "length mid = 2" and "length e = 2" and "length hdr = 2"
    and "fuaLoop data mid e c offset r hdr = Inr ps"
  shows "\<forall>p \<in> set ps. length p \<le> 2 + (if r = 0 then c else c + 1)"
proof -
  from fuaLoop_shape[OF assms(1-3), of mid e hdr] assms(7)
  have m: "map length ps = map (\<lambda>i. length (if i + 1 = m then e else if i = 0 then hdr else mid)
                                  + (if i < r then c + 1 else c)) [0..<m]"
    by simp
  have "\<forall>l \<in> set (map length ps). l \<le> 2 + (if r = 0 then c else c + 1)"
    unfolding m using assms(4-6) by auto
  then show ?thesis by simp
qed

lemma chunk_le_fuaMax:
  assumes "0 < f" and "0 < P"
  shows "(if P mod ceilDiv P f = 0 then P div ceilDiv P f else P div ceilDiv P f + 1) \<le> f"
proof -
  define n where "n = ceilDiv P f"
  have npos: "0 < n" unfolding n_def by (rule ceilDiv_pos[OF assms(2,1)])
  have le: "P \<le> n * f" unfolding n_def using ceilDiv_bounds(1)[OF assms(1), of P] .
  have dm: "P = n * (P div n) + P mod n" by simp
  show ?thesis
  proof (cases "P mod n = 0")
    case True
    with dm have "n * (P div n) \<le> n * f" using le by simp
    then have "P div n \<le> f" using npos by simp
    with True show ?thesis by (simp add: n_def)
  next
    case False
    then have "n * (P div n) < P" using dm by linarith
    with le have "n * (P div n) < n * f" by linarith
    then have "P div n < f" using npos by simp
    with False show ?thesis by (simp add: n_def)
  qed
qed

lemma fuaFragments_bound:
  assumes f: "1 \<le> fuaMax this" and res: "fuaFragments this data noStart noEnd = Inr ps"
  shows "\<forall>p \<in> set ps. int (length p) \<le> fuaMax this + 2"
proof -
  define P where "P = length data - 1"
  define n where "n = ceilDiv P (nat (fuaMax this))"
  show ?thesis
  proof (cases "P = 0")
    case True
    with res have "ps = []"
      by (simp add: fuaFragments_def Let_def NAL_HEADER_SIZE_def P_def)
    then show ?thesis by simp
  next
    case False
    then have Ppos: "0 < P" by simp
    have fpos: "0 < nat (fuaMax this)" using f by simp
    have npos: "0 < n" unfolding n_def by (rule ceilDiv_pos[OF Ppos fpos])
    have nle: "n \<le> P" unfolding n_def by (rule ceilDiv_le[OF fpos])
    have c1: "1 \<le> P div n \<or> P mod n = n" using npos nle by (simp add: Suc_le_eq div_greater_zero_iff)
    have r1: "P mod n \<le> n" using npos by (simp add: less_imp_le)
    have len: "1 + P mod n + n * (P div n) = length data" using Ppos by (simp add: P_def)
    obtain mid e hdr where
      eq: "fuaFragments this data noStart noEnd = fuaLoop data mid e (P div n) 1 (P mod n) hdr"
      and l: "length mid = 2" "length e = 2" "length hdr = 2"
    proof -
      let ?ind = "(byteAt data 0 AND (0x80 OR 0x60)) OR NAL_TYPE_FU_A"
      let ?nal = "byteAt data 0 AND 0x1F"
      have "fuaFragments this data noStart noEnd
            = fuaLoop data [?ind, ?nal] (if noEnd then [?ind, ?nal] else [?ind, ?nal OR 0x40])
                (P div n) 1 (P mod n) (if noStart then [?ind, ?nal] else [?ind, ?nal OR 0x80])"
        using False f unfolding fuaFragments_def Let_def NAL_HEADER_SIZE_def P_def[symmetric] n_def[symmetric]
        by simp
      then show ?thesis by (rule that) simp_all
    qed
    from fuaLoop_bound[OF c1 r1 len l res[unfolded eq]]
    have "\<forall>p \<in> set ps. length p \<le> 2 + (if P mod n = 0 then P div n else P div n + 1)" .
    moreover have "(if P mod n = 0 then P div n else P div n + 1) \<le> nat (fuaMax this)"
      unfolding n_def by (rule chunk_le_fuaMax[OF fpos Ppos])
    ultimately have "\<forall>p \<in> set ps. length p \<le> 2 + nat (fuaMax this)" by fastforce
    then show ?thesis using f by auto
  qed
qed

lemma packetizeFuA_bound:
  assumes "1 \<le> fuaMax this" and "packetizeFuA this data0 noStart noEnd = Inr ps"
  shows "\<forall>p \<in> set ps. int (length p) \<le> fuaMax this + 2"
  using assms fuaFragments_bound[OF assms(1)]
  by (auto simp: packetizeFuA_def split: prod.splits)



lemma stapALoop_size:
  assumes "stapALoop datas h a c p = Inr (rest, h', c', p')"
  shows "int (length (concat p')) \<le> int (length (concat p)) + max a 0 \<and> set rest \<subseteq> set datas"
  using assms
proof (induction datas arbitrary: h a c p)
  case Nil
  then show ?case by simp
next
  case (Cons nalu datas)
  show ?case
  proof (cases "int (length nalu) + int LENGTH_FIELD_SIZE \<le> a \<and> c < 9")
    case False
    with Cons.prems show ?thesis by auto
  next
    case True
    with Cons.prems obtain packed h2 where
      w: "writeUInt16BE (length nalu) = Inr packed"
      and r: "stapALoop datas h2 (a - (int LENGTH_FIELD_SIZE + int (length nalu))) (c + 1)
                (p @ [packed, nalu]) = Inr (rest, h', c', p')"
      by (auto simp: Let_def split: sum.splits)
    from Cons.IH[OF r] writeUInt16BE_length[OF w] True show ?thesis
      by (auto simp: LENGTH_FIELD_SIZE_def)
  qed
qed

lemma packetizeOneStapA_size:
  assumes "packetizeOneStapA this datas = Inr (x, rest)" and "3 \<le> maxPacketSize this"
  shows "(int (length x) \<le> maxPacketSize this
          \<or> (x \<in> set datas \<and> maxPacketSize this - int STAP_A_HEADER_SIZE
                < int (length x) + int LENGTH_FIELD_SIZE))
         \<and> set rest \<subseteq> set datas"
proof -
  from assms(1) have ne: "datas \<noteq> []" by (auto simp: packetizeOneStapA_def)
  then obtain d ds where d: "datas = d # ds" by (cases datas) auto
  let ?h0 = "NAL_TYPE_STAP_A OR (byteAt (hd datas) 0 AND 0xE0)"
  let ?a = "maxPacketSize this - int STAP_A_HEADER_SIZE"
  from assms(1) ne obtain r h c p where
    loop: "stapALoop datas ?h0 ?a 0 [] = Inr (r, h, c, p)"
    and res: "(x, rest) = (if c = 0 then (hd r, tl r) else (concat ([h] # p), r))"
    by (auto simp: packetizeOneStapA_def split: sum.splits prod.splits if_splits)
  from stapALoop_size[OF loop] have sz: "int (length (concat p)) \<le> max ?a 0" and sub: "set r \<subseteq> set datas"
    by auto
  show ?thesis
  proof (cases "c = 0")
    case True
    from stapALoop_rest[OF loop] True have rd: "r = datas" by simp
    have refused: "\<not> (int (length d) + int LENGTH_FIELD_SIZE \<le> ?a)"
    proof
      assume adm: "int (length d) + int LENGTH_FIELD_SIZE \<le> ?a"
      then obtain packed h2 a2 p2 where "stapALoop ds h2 a2 (0 + 1) p2 = Inr (r, h, c, p)"
        using loop unfolding d by (auto simp: Let_def split: sum.splits)
      from stapALoop_rest[OF this] True show False by simp
    qed
    from res True rd d have "x = d" "rest = ds" by simp_all
    with refused d show ?thesis by auto
  next
    case False
    with res have "x = h # concat p" "rest = r" by simp_all
    with sz sub assms(2) show ?thesis
      by (auto simp: STAP_A_HEADER_SIZE_def NAL_HEADER_SIZE_def LENGTH_FIELD_SIZE_def)
  qed
qed

lemma packetizeStapA_size:
  assumes "packetizeStapA this datas = Inr aggregates" and "3 \<le> maxPacketSize this"
  shows "\<forall>x \<in> set aggregates. int (length x) \<le> maxPacketSize this
          \<or> (x \<in> set datas \<and> maxPacketSize this - int STAP_A_HEADER_SIZE
                < int (length x) + int LENGTH_FIELD_SIZE)"
  using assms
proof (induction this datas arbitrary: aggregates rule: packetizeStapA.induct)
  case (1 this datas)
  show ?case
  proof (cases "datas = []")
    case True
    with "1.prems" show ?thesis by (simp add: packetizeStapA.simps)
  next
    case False
    with "1.prems"(1) obtain x rest ret where
      one: "packetizeOneStapA this datas = Inr (x, rest)"
      and rec: "packetizeStapA this rest = Inr ret"
      and agg: "aggregates = x # ret"
      by (subst (asm) packetizeStapA.simps) (auto split: sum.splits prod.splits)
    from packetizeOneStapA_size[OF one "1.prems"(2)]
    have x: "int (length x) \<le> maxPacketSize this
          \<or> (x \<in> set datas \<and> maxPacketSize this - int STAP_A_HEADER_SIZE
                < int (length x) + int LENGTH_FIELD_SIZE)"
      and sub: "set rest \<subseteq> set datas" by auto
    from "1.IH"[OF False one refl rec "1.prems"(2)] sub x agg show ?thesis
      by auto
  qed
qed

section \<open>The steps of repacketize, case by case\<close>


lemma bindE_Inr: "bindE m f = Inr y \<longleftrightarrow> (\<exists>x. m = Inr x \<and> f x = Inr y)"
  by (cases m) (simp_all add: bindE_def)

lemma enumerate_payloads:
  "map outPayload (map (\<lambda>(index, packetized). createPacket this first packetized (mk index))
                     (enumerate n aggregates)) = aggregates"
  by (induction aggregates arbitrary: n) (simp_all add: createPacket_def)

lemma length_one: "length xs = 1 \<Longrightarrow> \<exists>x. xs = [x]"
  by (cases xs) auto

lemma flushPendingStapA_cases:
  assumes "flushPendingStapA this ret = Inr pr"
  obtains (none) "pendingStapA this = None" and "pr = (this, ret)"
  | (drop) pending aggregates where "pendingStapA this = Some pending" and "pending \<noteq> []"
      and "packetizeStapA this (map payload pending) = Inr aggregates"
      and "length aggregates \<noteq> 1" and "pr = (this\<lparr>pendingStapA := None\<rparr>, ret)"
  | (emit) pending a ret' where "pendingStapA this = Some pending" and "pending \<noteq> []"
      and "packetizeStapA this (map payload pending) = Inr [a]"
      and "pr = (this\<lparr>extraPackets := extraPackets this - (int (length pending) - 1),
                      pendingStapA := None\<rparr>, ret')"
      and "map outPayload ret' = map outPayload ret @ [a]"
proof (cases "pendingStapA this")
  case None
  with assms have "pr = (this, ret)" by (simp add: flushPendingStapA_def)
  with None show ?thesis by (rule none)
next
  case (Some pending)
  from assms Some obtain first others where g: "pending = first # others"
    by (cases pending) (auto simp: flushPendingStapA_def)
  from assms Some g obtain aggregates where
    agg: "packetizeStapA this (map payload pending) = Inr aggregates"
    and res: "(if length aggregates \<noteq> 1 then Inr (this\<lparr>pendingStapA := None\<rparr>, ret)
               else Inr (this\<lparr>extraPackets := extraPackets this - (int (length pending) - 1),
                               pendingStapA := None\<rparr>,
                         ret @ map (\<lambda>(index, packetized). createPacket this first packetized
                                        (marker first \<and> int index = int (length aggregates) - 1))
                                    (enumerate 0 aggregates))) = (Inr pr :: error + progress)"
    by (auto simp: flushPendingStapA_def Let_def bindE_Inr)
  show ?thesis
  proof (cases "length aggregates \<noteq> 1")
    case True
    with res have pr: "pr = (this\<lparr>pendingStapA := None\<rparr>, ret)" by simp
    have ne0: "pending \<noteq> []" using g by simp
    show ?thesis by (rule drop[OF Some ne0 agg True pr])
  next
    case False
    then obtain a where a: "aggregates = [a]" using length_one by auto
    define ret' where "ret' = ret @ map (\<lambda>(index, packetized). createPacket this first packetized
                                        (marker first \<and> int index = int (length aggregates) - 1))
                                    (enumerate 0 aggregates)"
    from res False have pr: "pr = (this\<lparr>extraPackets := extraPackets this - (int (length pending) - 1),
                               pendingStapA := None\<rparr>, ret')"
      by (simp add: ret'_def)
    have "map outPayload ret' = map outPayload ret @ aggregates"
      unfolding ret'_def by (simp only: map_append enumerate_payloads)
    then have pl: "map outPayload ret' = map outPayload ret @ [a]" by (simp add: a)
    have ne0: "pending \<noteq> []" using g by simp
    show ?thesis by (rule emit[OF Some ne0 agg[unfolded a] pr pl])
  qed
qed

lemma flushPendingFuA_cases:
  assumes "flushPendingFuA this ret = Inr pr"
  obtains (none) "pendingFuA this = None" and "pr = (this, ret)"
  | (discard) pending where "pendingFuA this = Some pending" and "pending \<noteq> []"
      and "\<not> fuaConsistent (byteAt (payload (hd pending)) 1 AND 0x1f) None pending"
      and "pr = (this\<lparr>pendingFuA := None\<rparr>, ret)"
  | (emit) pending fragments ret' where
      "pendingFuA this = Some pending" and "pending \<noteq> []"
      and "fuaConsistent (byteAt (payload (hd pending)) 1 AND 0x1f) None pending"
      and "packetizeFuA this (defragment pending)
             (\<not> (byteAt (payload (hd pending)) 1 AND 0x80 \<noteq> 0))
             (\<not> (byteAt (payload (last pending)) 1 AND 0x40 \<noteq> 0)) = Inr fragments"
      and "pr = (this\<lparr>extraPackets := extraPackets this
                          + (if fragments = [] then 0 else int (length fragments) - 1)
                          - (int (length pending) - 1),
                      pendingFuA := None\<rparr>, ret')"
      and "map outPayload ret' = map outPayload ret @ fragments"
proof (cases "pendingFuA this")
  case None
  with assms have "pr = (this, ret)" by (simp add: flushPendingFuA_def)
  with None show ?thesis by (rule none)
next
  case (Some pending)
  from assms Some obtain first others where g: "pending = first # others"
    by (cases pending) (auto simp: flushPendingFuA_def)
  show ?thesis
  proof (cases "fuaConsistent (byteAt (payload first) 1 AND 0x1f) None pending")
    case False
    with assms Some g have pr: "pr = (this\<lparr>pendingFuA := None\<rparr>, ret)"
      by (simp add: flushPendingFuA_def Let_def)
    have ne0: "pending \<noteq> []"
      and nc: "\<not> fuaConsistent (byteAt (payload (hd pending)) 1 AND 0x1f) None pending"
      using g False by simp_all
    show ?thesis by (rule discard[OF Some ne0 nc pr])
  next
    case True
    define ns where "ns = (\<not> (byteAt (payload first) 1 AND 0x80 \<noteq> 0))"
    define ne where "ne = (\<not> (byteAt (payload (last pending)) 1 AND 0x40 \<noteq> 0))"
    from assms Some True obtain fragments where
      fr: "packetizeFuA this (defragment pending) ns ne = Inr fragments"
      and res: "(case createRtpPackets this first fragments ret (marker (last pending)) of
                  (this1, ret1) \<Rightarrow> Inr (this1\<lparr>extraPackets := extraPackets this1 - (int (length pending) - 1),
                                        pendingFuA := None\<rparr>, ret1)) = (Inr pr :: error + progress)"
      unfolding g flushPendingFuA_def Let_def ns_def ne_def
      by (auto simp: bindE_Inr simp del: last.simps)
    define C where "C = createRtpPackets this first fragments ret (marker (last pending))"
    from res have pr: "pr = ((fst C)\<lparr>extraPackets := extraPackets (fst C) - (int (length pending) - 1),
                                        pendingFuA := None\<rparr>, snd C)"
      by (simp add: C_def case_prod_unfold)
    have st: "fst C = this\<lparr>extraPackets := extraPackets this + (if fragments = [] then 0 else int (length fragments) - 1)\<rparr>"
      unfolding C_def by (rule createRtpPackets_state)
    have pl: "map outPayload (snd C) = map outPayload ret @ fragments"
      unfolding C_def by (rule createRtpPackets_payloads)
    have pr': "pr = (this\<lparr>extraPackets := extraPackets this
                          + (if fragments = [] then 0 else int (length fragments) - 1)
                          - (int (length pending) - 1),
                      pendingFuA := None\<rparr>, snd C)"
      by (simp add: pr st)
    have ne0: "pending \<noteq> []" and cons: "fuaConsistent (byteAt (payload (hd pending)) 1 AND 0x1f) None pending"
      using g True by simp_all
    have fr': "packetizeFuA this (defragment pending)
             (\<not> (byteAt (payload (hd pending)) 1 AND 0x80 \<noteq> 0))
             (\<not> (byteAt (payload (last pending)) 1 AND 0x40 \<noteq> 0)) = Inr fragments"
      using fr by (simp add: ns_def ne_def g)
    show ?thesis by (rule emit[OF Some ne0 cons fr' pr' pl])
  qed
qed

lemma maybeSendSpsPps_cases:
  assumes "maybeSendSpsPps this packet ret = Inr pr"
  obtains (skip) "pr = (this, ret)"
  | (emit) a b x ret' where "sps this = Some a" and "pps this = Some b"
      and "packetizeStapA this [a, b] = Inr [x]"
      and "pr = (this\<lparr>extraPackets := extraPackets this + 1\<rparr>, ret')"
      and "map outPayload ret' = map outPayload ret @ [x]"
proof (cases "\<exists>a b. sps this = Some a \<and> pps this = Some b")
  case False
  with assms have "pr = (this, ret)"
    by (auto simp: maybeSendSpsPps_def split: option.splits)
  then show ?thesis by (rule skip)
next
  case True
  then obtain a b where ab: "sps this = Some a" "pps this = Some b" by auto
  from assms ab obtain aggregates where
    agg: "packetizeStapA this [a, b] = Inr aggregates"
    and res: "(if length aggregates \<noteq> 1 then Inr (this, ret)
               else (case createRtpPackets this packet aggregates ret (marker packet) of
                       (this1, ret1) \<Rightarrow> Inr (this1\<lparr>extraPackets := extraPackets this1 + 1\<rparr>, ret1)))
              = (Inr pr :: error + progress)"
    by (auto simp: maybeSendSpsPps_def bindE_Inr)
  show ?thesis
  proof (cases "length aggregates \<noteq> 1")
    case True
    with res have "pr = (this, ret)" by simp
    then show ?thesis by (rule skip)
  next
    case False
    then obtain x where x: "aggregates = [x]" using length_one by auto
    define C where "C = createRtpPackets this packet aggregates ret (marker packet)"
    from res False have pr: "pr = ((fst C)\<lparr>extraPackets := extraPackets (fst C) + 1\<rparr>, snd C)"
      by (simp add: C_def case_prod_unfold)
    have st: "fst C = this"
      unfolding C_def by (simp add: createRtpPackets_state x)
    have pl: "map outPayload (snd C) = map outPayload ret @ aggregates"
      unfolding C_def by (rule createRtpPackets_payloads)
    have pr': "pr = (this\<lparr>extraPackets := extraPackets this + 1\<rparr>, snd C)"
      by (simp add: pr st)
    show ?thesis by (rule emit[OF ab agg[unfolded x] pr' pl[unfolded x]])
  qed
qed

section \<open>The size bound through one call\<close>


lemma sizeInv_push:
  assumes "sizeInv s pkt (this, ret)" and "map outPayload ret' = map outPayload ret @ xs"
    and "\<forall>x \<in> set xs. withinSize s pkt x" and "sameConfig s this'"
  shows "sizeInv s pkt (this', ret')"
proof -
  have "list_all (withinSize s pkt) (map outPayload ret')"
    unfolding assms(2) using assms(1,3) by (auto simp: sizeInv_def list_all_iff)
  then have "list_all (\<lambda>e. withinSize s pkt (outPayload e)) ret'"
    by (simp add: list_all_iff)
  with assms(4) show ?thesis by (simp add: sizeInv_def)
qed

lemma sizeInv_state:
  assumes "sizeInv s pkt (this, ret)" and "sameConfig s this'"
  shows "sizeInv s pkt (this', ret)"
  using assms by (simp add: sizeInv_def)

lemma withinSize_stapA:
  assumes "packetizeStapA this datas = Inr aggregates" and "3 \<le> maxPacketSize s"
    and "sameConfig s this" and "set datas \<subseteq> set (stapAQueue s pkt)"
  shows "\<forall>x \<in> set aggregates. withinSize s pkt x"
proof -
  from assms(3) have M: "maxPacketSize this = maxPacketSize s" by (simp add: sameConfig_def)
  from packetizeStapA_size[OF assms(1)] assms(2) M
  have "\<forall>x \<in> set aggregates. int (length x) \<le> maxPacketSize s
          \<or> (x \<in> set datas \<and> maxPacketSize s - int STAP_A_HEADER_SIZE
                < int (length x) + int LENGTH_FIELD_SIZE)"
    by simp
  with assms(4) show ?thesis
    by (auto simp: withinSize_def stapAFallback_def)
qed

lemma withinSize_fuA:
  assumes "packetizeFuA this data ns ne = Inr fragments" and "3 \<le> maxPacketSize s"
    and "fuaMax s = maxPacketSize s - 2" and "sameConfig s this"
  shows "\<forall>x \<in> set fragments. withinSize s pkt x"
proof -
  have "1 \<le> fuaMax this" using assms(2-4) by (simp add: sameConfig_def)
  from packetizeFuA_bound[OF this assms(1)] assms(3,4) show ?thesis
    by (auto simp: withinSize_def sameConfig_def)
qed

lemma sizeInv_flushPendingStapA:
  assumes "flushPendingStapA this ret = Inr pr" and "sizeInv s pkt (this, ret)"
    and "3 \<le> maxPacketSize s"
  shows "sizeInv s pkt pr"
  using assms(1)
proof (cases rule: flushPendingStapA_cases)
  case none
  with assms(2) show ?thesis by simp
next
  case (drop pending aggregates)
  with assms(2) show ?thesis by (simp add: sizeInv_def sameConfig_def)
next
  case (emit pending a ret')
  from assms(2) have cfg: "sameConfig s this" by (simp add: sizeInv_def)
  with emit(1) have "pendingStapA s = Some pending" by (auto simp: sameConfig_def)
  then have sub: "set (map payload pending) \<subseteq> set (stapAQueue s pkt)"
    by (auto simp: stapAQueue_def)
  from withinSize_stapA[OF emit(3) assms(3) cfg sub] have ok: "\<forall>x \<in> set [a]. withinSize s pkt x" .
  have cfg': "sameConfig s (this\<lparr>extraPackets := extraPackets this - (int (length pending) - 1),
                      pendingStapA := None\<rparr>)"
    using cfg by (simp add: sameConfig_def)
  show ?thesis unfolding emit(4) by (rule sizeInv_push[OF assms(2) emit(5) ok cfg'])
qed

lemma sizeInv_flushPendingFuA:
  assumes "flushPendingFuA this ret = Inr pr" and "sizeInv s pkt (this, ret)"
    and "3 \<le> maxPacketSize s" and "fuaMax s = maxPacketSize s - 2"
  shows "sizeInv s pkt pr"
  using assms(1)
proof (cases rule: flushPendingFuA_cases)
  case none
  with assms(2) show ?thesis by simp
next
  case (discard pending)
  with assms(2) show ?thesis by (simp add: sizeInv_def sameConfig_def)
next
  case (emit pending fragments ret')
  from assms(2) have cfg: "sameConfig s this" by (simp add: sizeInv_def)
  from withinSize_fuA[OF emit(4) assms(3,4) cfg] have ok: "\<forall>x \<in> set fragments. withinSize s pkt x" .
  have cfg': "sameConfig s (this\<lparr>extraPackets := extraPackets this
                          + (if fragments = [] then 0 else int (length fragments) - 1)
                          - (int (length pending) - 1),
                      pendingFuA := None\<rparr>)"
    using cfg by (simp add: sameConfig_def)
  show ?thesis unfolding emit(5) by (rule sizeInv_push[OF assms(2) emit(6) ok cfg'])
qed

lemma sizeInv_maybeSendSpsPps:
  assumes "maybeSendSpsPps this packet ret = Inr pr" and "sizeInv s pkt (this, ret)"
    and "3 \<le> maxPacketSize s"
  shows "sizeInv s pkt pr"
  using assms(1)
proof (cases rule: maybeSendSpsPps_cases)
  case skip
  with assms(2) show ?thesis by simp
next
  case (emit a b x ret')
  from assms(2) have cfg: "sameConfig s this" by (simp add: sizeInv_def)
  with emit(1,2) have sub: "set [a, b] \<subseteq> set (stapAQueue s pkt)"
    by (auto simp: stapAQueue_def sameConfig_def)
  from withinSize_stapA[OF emit(3) assms(3) cfg sub] have ok: "\<forall>x \<in> set [x]. withinSize s pkt x" .
  have cfg': "sameConfig s (this\<lparr>extraPackets := extraPackets this + 1\<rparr>)"
    using cfg by (simp add: sameConfig_def)
  show ?thesis unfolding emit(4) by (rule sizeInv_push[OF assms(2) emit(5) ok cfg'])
qed

lemma sizeInv_createRtpPackets:
  assumes "sizeInv s pkt (this, ret)" and "\<forall>x \<in> set nalus. withinSize s pkt x"
  shows "sizeInv s pkt (createRtpPackets this packet nalus ret hadMarker)"
proof -
  have cfg: "sameConfig s (fst (createRtpPackets this packet nalus ret hadMarker))"
    using assms(1) by (simp add: createRtpPackets_state sizeInv_def sameConfig_def)
  have "sizeInv s pkt (fst (createRtpPackets this packet nalus ret hadMarker),
                       snd (createRtpPackets this packet nalus ret hadMarker))"
    by (rule sizeInv_push[OF assms(1) createRtpPackets_payloads assms(2) cfg])
  then show ?thesis by simp
qed

lemma sizeInv_flushOnTimestamp:
  assumes "flushOnTimestamp this packet ret = Inr pr" and "sizeInv s pkt (this, ret)"
    and "3 \<le> maxPacketSize s" and "fuaMax s = maxPacketSize s - 2"
  shows "sizeInv s pkt pr"
proof -
  from assms(1) obtain this1 ret1 where
    a: "(case pendingFuA this of None \<Rightarrow> Inr (this, ret) | Some [] \<Rightarrow> Inl TypeError
         | Some (p # ps) \<Rightarrow> if timestamp p \<noteq> timestamp packet then flushPendingFuA this ret
                else Inr (this, ret)) = Inr (this1, ret1)"
    and b: "(case pendingStapA this1 of None \<Rightarrow> Inr (this1, ret1) | Some [] \<Rightarrow> Inl TypeError
          | Some (p # ps) \<Rightarrow> if timestamp p \<noteq> timestamp packet then flushPendingStapA this1 ret1
              else Inr (this1, ret1)) = Inr pr"
    by (auto simp: flushOnTimestamp_def bindE_Inr)
  from a assms(2-4) have i1: "sizeInv s pkt (this1, ret1)"
    by (auto split: option.splits list.splits if_splits intro: sizeInv_flushPendingFuA)
  from b i1 assms(3) show ?thesis
    by (auto split: option.splits list.splits if_splits intro: sizeInv_flushPendingStapA)
qed




lemma bindE_InrE:
  assumes "bindE m f = Inr y"
  obtains x where "m = Inr x" and "f x = Inr y"
  using assms by (auto simp: bindE_Inr)

lemma sizeInv_repacketizeFuA:
  assumes "repacketizeFuA this packet ret = Inr pr" and inv: "sizeInv s pkt (this, ret)"
    and M: "3 \<le> maxPacketSize s" and F: "fuaMax s = maxPacketSize s - 2"
  shows "sizeInv s pkt pr"
  using assms(1)[unfolded repacketizeFuA_def]
proof (cases rule: bindE_InrE)
  case (1 x1)
  have i1: "sizeInv s pkt x1"
    by (rule sizeInv_flushPendingStapA[OF 1(1) inv M])
  from 1(2)[unfolded case_prod_unfold Let_def] show ?thesis
  proof (cases rule: bindE_InrE)
    case (1 x2)
    have i2: "sizeInv s pkt x2"
      using 1(1) i1 sizeInv_maybeSendSpsPps[of "fst x1" packet "snd x1" x2 s pkt] M
      by (auto split: if_splits)
    from 1(2) show ?thesis
    proof (cases rule: bindE_InrE)
      case (1 x3)
      have i3: "sizeInv s pkt x3"
      proof (cases "pendingFuA (fst x2) = None")
        case False
        with 1(1) i2 show ?thesis by simp
      next
        case True
        show ?thesis
        proof (cases "maxPacketSize (fst x2) * 2 \<le> int (length (payload packet))")
          case False
          with True 1(1) have "x3 = ((fst x2)\<lparr>pendingFuA := Some []\<rparr>, snd x2)" by simp
          with i2 show ?thesis by (simp add: sizeInv_def sameConfig_def)
        next
          case big: True
          with True 1(1) obtain fragments where
            fr: "packetizeFuA (fst x2) (payload packet) False False = Inr fragments"
            and r: "x3 = createRtpPackets (fst x2) packet fragments (snd x2) (marker packet)"
            by (auto simp: bindE_Inr)
          from i2 have cfg: "sameConfig s (fst x2)" by (simp add: sizeInv_def)
          from withinSize_fuA[OF fr M F cfg] have ok: "\<forall>x \<in> set fragments. withinSize s pkt x" .
          from i2 have "sizeInv s pkt (fst x2, snd x2)" by simp
          from sizeInv_createRtpPackets[OF this ok] show ?thesis unfolding r .
        qed
      qed
      show ?thesis
      proof (cases "pendingFuA (fst x3)")
        case None
        with 1(2) i3 show ?thesis by simp
      next
        case (Some pending)
        have i4: "sizeInv s pkt ((fst x3)\<lparr>pendingFuA := Some (pending @ [packet])\<rparr>, snd x3)"
          using i3 by (simp add: sizeInv_def sameConfig_def)
        show ?thesis
        proof (cases "byteAt (payload packet) 1 AND 0x40 \<noteq> 0")
          case True
          with 1(2) Some have "flushPendingFuA ((fst x3)\<lparr>pendingFuA := Some (pending @ [packet])\<rparr>) (snd x3) = Inr pr"
            by simp
          from sizeInv_flushPendingFuA[OF this i4 M F] show ?thesis .
        next
          case False
          with 1(2) Some i4 show ?thesis by auto
        qed
      qed
    qed
  qed
qed

lemma sizeInv_repacketizeStapA:
  assumes "repacketizeStapA this pkt ret = Inr pr" and inv: "sizeInv s pkt (this, ret)"
    and M: "3 \<le> maxPacketSize s" and F: "fuaMax s = maxPacketSize s - 2"
  shows "sizeInv s pkt pr"
  using assms(1)[unfolded repacketizeStapA_def]
proof (cases rule: bindE_InrE)
  case (1 x1)
  have i1: "sizeInv s pkt x1"
    by (rule sizeInv_flushPendingFuA[OF 1(1) inv M F])
  from 1(2)[unfolded case_prod_unfold] show ?thesis
  proof (cases rule: bindE_InrE)
    case (1 nalus)
    define t where "t = (fst x1)\<lparr>seenSps := (seenSps (fst x1) \<or>
                            list_ex (\<lambda>p. byteAt p 0 AND 0x1F = NAL_TYPE_SPS) nalus)\<rparr>"
    have i2: "sizeInv s pkt (t, snd x1)"
      using i1 by (simp add: sizeInv_def sameConfig_def t_def)
    then have cfg: "sameConfig s t" by (simp add: sizeInv_def)
    have sub: "set (filter (\<lambda>p. byteAt p 0 AND 0x1F \<noteq> NAL_TYPE_SEI) nalus) \<subseteq> set (stapAQueue s pkt)"
      using 1(1) by (auto simp: stapAQueue_def)
    from 1(2)[unfolded Let_def, folded t_def] show ?thesis
    proof (cases rule: bindE_InrE)
      case (1 aggregates)
      from withinSize_stapA[OF 1(1) M cfg sub] have ok: "\<forall>x \<in> set aggregates. withinSize s pkt x" .
      from sizeInv_createRtpPackets[OF i2 ok, of pkt "marker pkt"] 1(2) show ?thesis by simp
    qed
  qed
qed

lemma sizeInv_repacketizeSingle:
  assumes "repacketizeSingle this packet ret = Inr pr" and inv: "sizeInv s pkt (this, ret)"
    and M: "3 \<le> maxPacketSize s" and F: "fuaMax s = maxPacketSize s - 2"
  shows "list_all (\<lambda>e. withinSize s pkt (outPayload e)) (snd pr)
         \<and> maxPacketSize (fst pr) = maxPacketSize s \<and> fuaMax (fst pr) = fuaMax s"
  using assms(1)[unfolded repacketizeSingle_def Let_def]
proof (cases rule: bindE_InrE)
  case (1 x1)
  let ?nalType = "byteAt (payload packet) 0 AND 0x1F"
  have i1: "sizeInv s pkt x1"
    by (rule sizeInv_flushPendingFuA[OF 1(1) inv M F])
  show ?thesis
  proof (cases "?nalType = NAL_TYPE_SPS \<or> ?nalType = NAL_TYPE_PPS")
    case True
    with 1(2) have "snd pr = snd x1" and "maxPacketSize (fst pr) = maxPacketSize (fst x1)"
      and "fuaMax (fst pr) = fuaMax (fst x1)" by (auto simp: case_prod_unfold)
    with i1 show ?thesis by (simp add: sizeInv_def sameConfig_def)
  next
    case False
    with 1(2) have "bindE (flushPendingStapA (fst x1) (snd x1))
                  (\<lambda>(this, ret).
                     if ?nalType = NAL_TYPE_SEI
                     then Inr (this\<lparr>extraPackets := extraPackets this - 1\<rparr>, ret)
                     else
                       bindE (if ?nalType = NAL_TYPE_IDR \<and> \<not> seenSps this
                              then maybeSendSpsPps this packet ret else Inr (this, ret))
                         (\<lambda>(this, ret).
                            if maxPacketSize this < int (length (payload packet)) then
                              bindE (packetizeFuA this (payload packet) False False)
                                (\<lambda>fragments.
                                   Inr (createRtpPackets this packet fragments ret
                                          (marker packet)))
                            else Inr (this, ret @ [createPacket this packet (payload packet)
                                                     (marker packet)]))) = Inr pr"
      by (simp only: case_prod_unfold if_False fst_conv snd_conv)
    then show ?thesis
    proof (cases rule: bindE_InrE)
      case (1 x2)
      have "sizeInv s pkt (fst x1, snd x1)" using i1 by simp
      from sizeInv_flushPendingStapA[OF 1(1) this M] have i2: "sizeInv s pkt x2" .
      show ?thesis
      proof (cases "?nalType = NAL_TYPE_SEI")
        case True
        with 1(2) have "snd pr = snd x2" and "maxPacketSize (fst pr) = maxPacketSize (fst x2)"
          and "fuaMax (fst pr) = fuaMax (fst x2)" by (auto simp: case_prod_unfold)
        with i2 show ?thesis by (simp add: sizeInv_def sameConfig_def)
      next
        case notSei: False
        with 1(2) have "bindE (if ?nalType = NAL_TYPE_IDR \<and> \<not> seenSps (fst x2)
                              then maybeSendSpsPps (fst x2) packet (snd x2) else Inr (fst x2, snd x2))
                         (\<lambda>(this, ret).
                            if maxPacketSize this < int (length (payload packet)) then
                              bindE (packetizeFuA this (payload packet) False False)
                                (\<lambda>fragments.
                                   Inr (createRtpPackets this packet fragments ret
                                          (marker packet)))
                            else Inr (this, ret @ [createPacket this packet (payload packet)
                                                     (marker packet)])) = Inr pr"
          by (simp only: case_prod_unfold if_False)
        then show ?thesis
        proof (cases rule: bindE_InrE)
          case (1 x3)
          have i3: "sizeInv s pkt x3"
            using 1(1) i2 sizeInv_maybeSendSpsPps[of "fst x2" packet "snd x2" x3 s pkt] M
            by (auto split: if_splits)
          then have cfg: "sameConfig s (fst x3)" by (simp add: sizeInv_def)
          from i3 have i3': "sizeInv s pkt (fst x3, snd x3)" by simp
          have "sizeInv s pkt pr"
          proof (cases "maxPacketSize (fst x3) < int (length (payload packet))")
            case True
            with 1(2) obtain fragments where
              fr: "packetizeFuA (fst x3) (payload packet) False False = Inr fragments"
              and r: "pr = createRtpPackets (fst x3) packet fragments (snd x3) (marker packet)"
              by (auto simp: bindE_Inr case_prod_unfold)
            from withinSize_fuA[OF fr M F cfg] have ok: "\<forall>x \<in> set fragments. withinSize s pkt x" .
            show ?thesis unfolding r by (rule sizeInv_createRtpPackets[OF i3' ok])
          next
            case False
            with 1(2) have pr: "pr = (fst x3, snd x3 @ [createPacket (fst x3) packet (payload packet) (marker packet)])"
              by (simp add: case_prod_unfold)
            have ok: "\<forall>x \<in> set [payload packet]. withinSize s pkt x"
              using False cfg by (simp add: withinSize_def sameConfig_def)
            have pl: "map outPayload (snd x3 @ [createPacket (fst x3) packet (payload packet) (marker packet)])
                      = map outPayload (snd x3) @ [payload packet]"
              by (simp add: createPacket_def)
            show ?thesis unfolding pr by (rule sizeInv_push[OF i3' pl ok cfg])
          qed
          then show ?thesis by (simp add: sizeInv_def sameConfig_def)
        qed
      qed
    qed
  qed
qed

lemma sizeInv_start: "sizeInv s pkt (s, [])"
  by (simp add: sizeInv_def sameConfig_def)

lemma repacketize_sizes:
  assumes "repacketize this packet = Inr pr"
    and M: "3 \<le> maxPacketSize this" and F: "fuaMax this = maxPacketSize this - 2"
  shows "list_all (\<lambda>e. withinSize this packet (outPayload e)) (snd pr)
         \<and> maxPacketSize (fst pr) = maxPacketSize this \<and> fuaMax (fst pr) = fuaMax this"
  using assms(1)[unfolded repacketize_def Let_def]
proof (cases rule: bindE_InrE)
  case (1 x1)
  let ?nalType = "byteAt (payload packet) 0 AND 0x1F"
  have i1: "sizeInv this packet (fst x1, snd x1)"
    using sizeInv_flushOnTimestamp[OF 1(1) sizeInv_start M F] by simp
  consider (fua) "?nalType = NAL_TYPE_FU_A"
    | (stapa) "?nalType \<noteq> NAL_TYPE_FU_A" "?nalType = NAL_TYPE_STAP_A"
    | (single) "?nalType \<noteq> NAL_TYPE_FU_A" "?nalType \<noteq> NAL_TYPE_STAP_A" "1 \<le> ?nalType \<and> ?nalType < 24"
    | (unknown) "?nalType \<noteq> NAL_TYPE_FU_A" "?nalType \<noteq> NAL_TYPE_STAP_A" "\<not> (1 \<le> ?nalType \<and> ?nalType < 24)"
    by blast
  then show ?thesis
  proof cases
    case fua
    with 1(2) have "repacketizeFuA (fst x1) packet (snd x1) = Inr pr"
      by (simp add: case_prod_unfold)
    from sizeInv_repacketizeFuA[OF this i1 M F] show ?thesis
      by (simp add: sizeInv_def sameConfig_def)
  next
    case stapa
    with 1(2) have "repacketizeStapA (fst x1) packet (snd x1) = Inr pr"
      by (simp add: case_prod_unfold)
    from sizeInv_repacketizeStapA[OF this i1 M F] show ?thesis
      by (simp add: sizeInv_def sameConfig_def)
  next
    case single
    with 1(2) have "repacketizeSingle (fst x1) packet (snd x1) = Inr pr"
      by (simp add: case_prod_unfold)
    from sizeInv_repacketizeSingle[OF this i1 M F] show ?thesis .
  next
    case unknown
    with 1(2) have "pr = ((fst x1)\<lparr>extraPackets := extraPackets (fst x1) - 1\<rparr>, snd x1)"
      by (simp add: case_prod_unfold)
    with i1 show ?thesis by (simp add: sizeInv_def sameConfig_def)
  qed
qed

text \<open>
  C1. On a repacketizer with \<open>maxPacketSize \<ge> 3\<close> (and \<open>fuaMax\<close> as the constructor
  sets it), every packet that a call of \<open>repacketize\<close> emits has a payload of at most
  \<open>maxPacketSize\<close> bytes, unless the payload is a NAL of the STAP-A queue of that call
  that fails the admission test of \<open>packetizeOneStapA\<close>, which the fallback returns
  unframed. The state is any state, so the bound holds after every sequence of inputs:
  \<open>repacketize\<close> keeps both sizes (\<open>repacketize_keeps_sizes\<close>).
\<close>

theorem repacketize_size_bound:
  assumes "3 \<le> maxPacketSize this"
    and "fuaMax this = maxPacketSize this - int FU_A_HEADER_SIZE"
    and "repacketize this packet = Inr (this', out)"
  shows "list_all (\<lambda>e. int (length (outPayload e)) \<le> maxPacketSize this
                       \<or> stapAFallback this packet (outPayload e)) out"
  using repacketize_sizes[OF assms(3) assms(1)] assms(2)
  by (simp add: FU_A_HEADER_SIZE_def withinSize_def)

theorem repacketize_size_bound_witness:
  "3 \<le> maxPacketSize (newRepacketizer 5 None None)
   \<and> fuaMax (newRepacketizer 5 None None)
       = maxPacketSize (newRepacketizer 5 None None) - int FU_A_HEADER_SIZE
   \<and> repacketize (newRepacketizer 5 None None)
         \<lparr>sequenceNumber = 10, marker = True, timestamp = 7,
          payload = [0x41, 1, 2, 3, 4, 5, 6, 7]\<rparr>
       = Inr ((newRepacketizer 5 None None)\<lparr>extraPackets := 2\<rparr>,
              [\<lparr>outSequenceNumber = 10, outMarker = False, outTimestamp = 7,
                outPayload = [0x5C, 0x81, 1, 2, 3]\<rparr>,
               \<lparr>outSequenceNumber = 11, outMarker = False, outTimestamp = 7,
                outPayload = [0x5C, 0x01, 4, 5]\<rparr>,
               \<lparr>outSequenceNumber = 12, outMarker = True, outTimestamp = 7,
                outPayload = [0x5C, 0x41, 6, 7]\<rparr>])
   \<and> list_all (\<lambda>e. int (length (outPayload e)) \<le> maxPacketSize (newRepacketizer 5 None None)
                       \<or> stapAFallback (newRepacketizer 5 None None)
                            \<lparr>sequenceNumber = 10, marker = True, timestamp = 7,
                             payload = [0x41, 1, 2, 3, 4, 5, 6, 7]\<rparr> (outPayload e))
       [\<lparr>outSequenceNumber = 10, outMarker = False, outTimestamp = 7,
         outPayload = [0x5C, 0x81, 1, 2, 3]\<rparr>,
        \<lparr>outSequenceNumber = 11, outMarker = False, outTimestamp = 7,
         outPayload = [0x5C, 0x01, 4, 5]\<rparr>,
        \<lparr>outSequenceNumber = 12, outMarker = True, outTimestamp = 7,
         outPayload = [0x5C, 0x41, 6, 7]\<rparr>]"
proof -
  have h1: "3 \<le> maxPacketSize (newRepacketizer 5 None None)"
    by (simp add: newRepacketizer_def)
  have h2: "fuaMax (newRepacketizer 5 None None)
       = maxPacketSize (newRepacketizer 5 None None) - int FU_A_HEADER_SIZE"
    by (simp add: newRepacketizer_def)
  have f: "packetizeFuA (newRepacketizer 5 None None) [0x41, 1, 2, 3, 4, 5, 6, 7] False False
           = Inr [[0x5C, 0x81, 1, 2, 3], [0x5C, 0x01, 4, 5], [0x5C, 0x41, 6, 7]]"
    by code_simp
  have h3: "repacketize (newRepacketizer 5 None None)
         \<lparr>sequenceNumber = 10, marker = True, timestamp = 7,
          payload = [0x41, 1, 2, 3, 4, 5, 6, 7]\<rparr>
       = Inr ((newRepacketizer 5 None None)\<lparr>extraPackets := 2\<rparr>,
              [\<lparr>outSequenceNumber = 10, outMarker = False, outTimestamp = 7,
                outPayload = [0x5C, 0x81, 1, 2, 3]\<rparr>,
               \<lparr>outSequenceNumber = 11, outMarker = False, outTimestamp = 7,
                outPayload = [0x5C, 0x01, 4, 5]\<rparr>,
               \<lparr>outSequenceNumber = 12, outMarker = True, outTimestamp = 7,
                outPayload = [0x5C, 0x41, 6, 7]\<rparr>])"
    using f[unfolded newRepacketizer_def] by (simp add: model_defs)
  from repacketize_size_bound[OF h1 h2 h3] h1 h2 h3 show ?thesis by (intro conjI)
qed

lemma repacketize_keeps_sizes:
  assumes "3 \<le> maxPacketSize this"
    and "fuaMax this = maxPacketSize this - int FU_A_HEADER_SIZE"
    and "repacketize this packet = Inr (this', out)"
  shows "maxPacketSize this' = maxPacketSize this \<and> fuaMax this' = fuaMax this"
  using repacketize_sizes[OF assms(3) assms(1)] assms(2)
  by (simp add: FU_A_HEADER_SIZE_def)

lemma newRepacketizer_sizes:
  "fuaMax (newRepacketizer m s p) = maxPacketSize (newRepacketizer m s p) - int FU_A_HEADER_SIZE"
  by (simp add: newRepacketizer_def)

section \<open>The accounting of extraPackets\<close>


lemma fuaFragments_fuaMax:
  "fuaMax a = fuaMax b \<Longrightarrow> fuaFragments a data ns ne = fuaFragments b data ns ne"
  by (simp add: fuaFragments_def Let_def)

lemma packetizeFuA_fuaMax:
  assumes "fuaMax a = fuaMax b"
  shows "packetizeFuA a data ns ne = packetizeFuA b data ns ne"
  unfolding packetizeFuA_def
  by (simp add: fuaFragments_fuaMax[OF assms] split: prod.splits)

lemma packetizeOneStapA_maxPacketSize:
  "maxPacketSize a = maxPacketSize b \<Longrightarrow> packetizeOneStapA a datas = packetizeOneStapA b datas"
  by (simp add: packetizeOneStapA_def)

lemma packetizeStapA_maxPacketSize:
  "maxPacketSize a = maxPacketSize b \<Longrightarrow> packetizeStapA a datas = packetizeStapA b datas"
proof (induction a datas rule: packetizeStapA.induct)
  case (1 this datas)
  show ?case
  proof (cases "datas = []")
    case True
    then show ?thesis by (simp add: packetizeStapA.simps)
  next
    case False
    have one: "packetizeOneStapA this datas = packetizeOneStapA b datas"
      by (rule packetizeOneStapA_maxPacketSize[OF "1.prems"])
    have lhs: "packetizeStapA this datas =
        (case packetizeOneStapA b datas of Inl e \<Rightarrow> Inl e
         | Inr (x, rest) \<Rightarrow> (case packetizeStapA this rest of Inl e \<Rightarrow> Inl e | Inr ret \<Rightarrow> Inr (x # ret)))"
      using False by (subst packetizeStapA.simps) (simp add: one)
    have rhs: "packetizeStapA b datas =
        (case packetizeOneStapA b datas of Inl e \<Rightarrow> Inl e
         | Inr (x, rest) \<Rightarrow> (case packetizeStapA b rest of Inl e \<Rightarrow> Inl e | Inr ret \<Rightarrow> Inr (x # ret)))"
      using False by (subst packetizeStapA.simps) simp
    show ?thesis
    proof (cases "packetizeOneStapA b datas")
      case (Inl e)
      then show ?thesis by (simp add: lhs rhs)
    next
      case (Inr xr)
      obtain x rest where xr: "xr = (x, rest)" by (cases xr)
      have "packetizeOneStapA this datas = Inr (x, rest)" using one Inr xr by simp
      from "1.IH"[OF False this refl "1.prems"]
      have "packetizeStapA this rest = packetizeStapA b rest" .
      with Inr xr show ?thesis by (simp add: lhs rhs)
    qed
  qed
qed

lemma packetizeStapA_nonempty:
  assumes "packetizeStapA this datas = Inr aggregates" and "datas \<noteq> []"
  shows "aggregates \<noteq> []"
  using assms by (subst (asm) packetizeStapA.simps) (auto split: sum.splits prod.splits)

lemma fuaFragments_nonempty:
  assumes "1 \<le> fuaMax this" and "2 \<le> length data"
    and "fuaFragments this data ns ne = Inr ps"
  shows "ps \<noteq> []"
proof -
  define P where "P = length data - 1"
  define n where "n = ceilDiv P (nat (fuaMax this))"
  have Ppos: "0 < P" using assms(2) by (simp add: P_def)
  have fpos: "0 < nat (fuaMax this)" using assms(1) by simp
  have npos: "0 < n" unfolding n_def by (rule ceilDiv_pos[OF Ppos fpos])
  have nle: "n \<le> P" unfolding n_def by (rule ceilDiv_le[OF fpos])
  have c1: "1 \<le> P div n \<or> P mod n = n" using npos nle by (simp add: Suc_le_eq div_greater_zero_iff)
  have r1: "P mod n \<le> n" using npos by (simp add: less_imp_le)
  have len: "1 + P mod n + n * (P div n) = length data" using Ppos by (simp add: P_def)
  obtain mid e hdr where
    eq: "fuaFragments this data ns ne = fuaLoop data mid e (P div n) 1 (P mod n) hdr"
  proof -
    let ?ind = "(byteAt data 0 AND (0x80 OR 0x60)) OR NAL_TYPE_FU_A"
    let ?nal = "byteAt data 0 AND 0x1F"
    have "fuaFragments this data ns ne
          = fuaLoop data [?ind, ?nal] (if ne then [?ind, ?nal] else [?ind, ?nal OR 0x40])
              (P div n) 1 (P mod n) (if ns then [?ind, ?nal] else [?ind, ?nal OR 0x80])"
      using Ppos assms(1) unfolding fuaFragments_def Let_def NAL_HEADER_SIZE_def P_def[symmetric] n_def[symmetric]
      by simp
    then show ?thesis by (rule that)
  qed
  from fuaLoop_shape[OF c1 r1 len, of mid e hdr] assms(3)[unfolded eq]
  have "map length ps = map (\<lambda>i. length (if i + 1 = n then e else if i = 0 then hdr else mid)
                                + (if i < P mod n then P div n + 1 else P div n)) [0..<n]"
    by simp
  from arg_cong[OF this, of length] have "length ps = n" by simp
  with npos show ?thesis by auto
qed

lemma packetizeFuA_nonempty_single:
  assumes "1 \<le> fuaMax this" and "byteAt data 0 AND 0x1f \<noteq> NAL_TYPE_FU_A" and "2 \<le> length data"
    and "packetizeFuA this data ns ne = Inr ps"
  shows "ps \<noteq> []"
  using assms fuaFragments_nonempty[OF assms(1,3)]
  by (auto simp: packetizeFuA_def fuaUnwrap_def Let_def)

lemma packetizeFuA_nonempty_fua:
  assumes "1 \<le> fuaMax this" and "3 \<le> length data"
    and "packetizeFuA this data ns ne = Inr ps"
  shows "ps \<noteq> []"
proof -
  obtain d a b where u: "fuaUnwrap data ns ne = (d, a, b)" by (cases "fuaUnwrap data ns ne")
  have "2 \<le> length d"
    using u assms(2)
    by (auto simp: fuaUnwrap_def Let_def subarray_def FU_A_HEADER_SIZE_def split: if_splits)
  from fuaFragments_nonempty[OF assms(1) this] assms(3) u show ?thesis
    by (simp add: packetizeFuA_def)
qed


lemma payloads_length:
  assumes "map outPayload ret' = map outPayload ret @ xs"
  shows "length ret' = length ret + length xs"
proof -
  have "length (map outPayload ret') = length (map outPayload ret @ xs)"
    by (simp only: assms)
  then show ?thesis by simp
qed

lemma balance_flushPendingStapA:
  assumes "flushPendingStapA this ret = Inr pr" and "sameConfig s this"
    and "case pendingStapA this of None \<Rightarrow> True | Some pending \<Rightarrow> stapAGroupEmits s pending"
  shows "sameConfig s (fst pr) \<and> pendingFuA (fst pr) = pendingFuA this
         \<and> pendingStapA (fst pr) = None \<and> balance pr = balance (this, ret)"
  using assms(1)
proof (cases rule: flushPendingStapA_cases)
  case none
  with assms(2) show ?thesis by simp
next
  case (drop pending aggregates)
  from assms(2) have M: "maxPacketSize this = maxPacketSize s"
    by (auto simp: sameConfig_def)
  from assms(3) drop(1) have "stapAGroupEmits s pending" by simp
  then obtain a where "packetizeStapA s (map payload pending) = Inr [a]"
    by (auto simp: stapAGroupEmits_def split: sum.splits list.splits)
  with drop(3) packetizeStapA_maxPacketSize[OF M, of "map payload pending"] have "aggregates = [a]"
    by simp
  with drop(4) show ?thesis by simp
next
  case (emit pending a ret')
  from payloads_length[OF emit(5)] have len: "length ret' = length ret + 1" by simp
  have cfg: "sameConfig s (this\<lparr>extraPackets := extraPackets this - (int (length pending) - 1),
                      pendingStapA := None\<rparr>)"
    using assms(2) by (simp add: sameConfig_def)
  have "balance pr = balance (this, ret)"
    unfolding emit(4) using emit(1,2) len
    by (simp add: balance_def buffered_def)
  with cfg show ?thesis unfolding emit(4) by simp
qed

lemma balance_flushPendingFuA:
  assumes "flushPendingFuA this ret = Inr pr" and "sameConfig s this"
    and "case pendingFuA this of None \<Rightarrow> True | Some pending \<Rightarrow> fuaGroupEmits s pending"
  shows "sameConfig s (fst pr) \<and> pendingFuA (fst pr) = None
         \<and> pendingStapA (fst pr) = pendingStapA this \<and> balance pr = balance (this, ret)"
  using assms(1)
proof (cases rule: flushPendingFuA_cases)
  case none
  with assms(2) show ?thesis by simp
next
  case (discard pending)
  from assms(3) discard(1) have "fuaGroupEmits s pending" by simp
  with discard(3) show ?thesis by (simp add: fuaGroupEmits_def)
next
  case (emit pending fragments ret')
  from assms(2) have F: "fuaMax this = fuaMax s" by (simp add: sameConfig_def)
  from assms(3) emit(1) have "fuaGroupEmits s pending" by simp
  then obtain f fs where "packetizeFuA s (defragment pending)
             (\<not> (byteAt (payload (hd pending)) 1 AND 0x80 \<noteq> 0))
             (\<not> (byteAt (payload (last pending)) 1 AND 0x40 \<noteq> 0)) = Inr (f # fs)"
    by (auto simp: fuaGroupEmits_def split: sum.splits list.splits)
  with emit(4) packetizeFuA_fuaMax[OF F] have ne: "fragments \<noteq> []" by auto
  from payloads_length[OF emit(6)] have len: "length ret' = length ret + length fragments" .
  have cfg: "sameConfig s (this\<lparr>extraPackets := extraPackets this
                          + (if fragments = [] then 0 else int (length fragments) - 1)
                          - (int (length pending) - 1),
                      pendingFuA := None\<rparr>)"
    using assms(2) by (simp add: sameConfig_def)
  have "balance pr = balance (this, ret)"
    unfolding emit(5) using emit(1,2) len ne
    by (simp add: balance_def buffered_def)
  with cfg show ?thesis unfolding emit(5) by simp
qed

lemma balance_maybeSendSpsPps:
  assumes "maybeSendSpsPps this packet ret = Inr pr" and "sameConfig s this"
  shows "sameConfig s (fst pr) \<and> pendingFuA (fst pr) = pendingFuA this
         \<and> pendingStapA (fst pr) = pendingStapA this \<and> balance pr = balance (this, ret)"
  using assms(1)
proof (cases rule: maybeSendSpsPps_cases)
  case skip
  with assms(2) show ?thesis by simp
next
  case (emit a b x ret')
  from payloads_length[OF emit(5)] have len: "length ret' = length ret + 1" by simp
  have cfg: "sameConfig s (this\<lparr>extraPackets := extraPackets this + 1\<rparr>)"
    using assms(2) by (simp add: sameConfig_def)
  have "balance pr = balance (this, ret)"
    unfolding emit(4) using len by (simp add: balance_def buffered_def)
  with cfg show ?thesis unfolding emit(4) by simp
qed

lemma balance_createRtpPackets:
  assumes "nalus \<noteq> []"
  shows "balance (createRtpPackets this packet nalus ret hadMarker) = balance (this, ret) - 1"
proof -
  let ?C = "createRtpPackets this packet nalus ret hadMarker"
  have st: "fst ?C = this\<lparr>extraPackets := extraPackets this + (int (length nalus) - 1)\<rparr>"
    using assms by (simp add: createRtpPackets_state)
  have "length (snd ?C) = length ret + length nalus"
    by (rule payloads_length[OF createRtpPackets_payloads])
  then show ?thesis
    unfolding balance_def st by (simp add: buffered_def)
qed

lemma config_createRtpPackets:
  assumes "sameConfig s this"
  shows "sameConfig s (fst (createRtpPackets this packet nalus ret hadMarker))
         \<and> pendingFuA (fst (createRtpPackets this packet nalus ret hadMarker)) = pendingFuA this
         \<and> pendingStapA (fst (createRtpPackets this packet nalus ret hadMarker)) = pendingStapA this"
  using assms by (simp add: createRtpPackets_state sameConfig_def)

lemma acct_flushOnTimestamp:
  assumes "flushOnTimestamp this packet [] = Inr pr"
    and eF: "case pendingFuA this of None \<Rightarrow> True
             | Some pending \<Rightarrow> newTimestamp pending packet \<longrightarrow> fuaGroupEmits this pending"
    and eS: "case pendingStapA this of None \<Rightarrow> True
             | Some pending \<Rightarrow> newTimestamp pending packet \<longrightarrow> stapAGroupEmits this pending"
  shows "sameConfig this (fst pr)
         \<and> pendingFuA (fst pr) = keptGroup (pendingFuA this) packet
         \<and> pendingStapA (fst pr) = keptGroup (pendingStapA this) packet
         \<and> balance pr = balance (this, [])"
  using assms(1)[unfolded flushOnTimestamp_def]
proof (cases rule: bindE_InrE)
  case (1 x1)
  have cfg0: "sameConfig this this" by (simp add: sameConfig_def)
  have a1: "sameConfig this (fst x1) \<and> pendingFuA (fst x1) = keptGroup (pendingFuA this) packet
            \<and> pendingStapA (fst x1) = pendingStapA this \<and> balance x1 = balance (this, [])"
  proof (cases "pendingFuA this")
    case None
    with 1(1) cfg0 show ?thesis by (auto simp: keptGroup_def)
  next
    case (Some pending)
    with 1(1) obtain p ps where g: "pending = p # ps" by (cases pending) auto
    show ?thesis
    proof (cases "timestamp p \<noteq> timestamp packet")
      case True
      with 1(1) Some g have fl: "flushPendingFuA this [] = Inr x1" by simp
      from eF True have "fuaGroupEmits this (p # ps)"
        unfolding Some g by (simp add: newTimestamp_def)
      then have "case pendingFuA this of None \<Rightarrow> True | Some pending \<Rightarrow> fuaGroupEmits this pending"
        using Some g by simp
      from balance_flushPendingFuA[OF fl cfg0 this] Some g True show ?thesis
        by (simp add: keptGroup_def newTimestamp_def)
    next
      case False
      with 1(1) Some g cfg0 show ?thesis by (auto simp: keptGroup_def newTimestamp_def)
    qed
  qed
  from a1 have c1: "sameConfig this (fst x1)"
    and f1: "pendingFuA (fst x1) = keptGroup (pendingFuA this) packet"
    and s1: "pendingStapA (fst x1) = pendingStapA this"
    and b1: "balance x1 = balance (this, [])" by simp_all
  show ?thesis
  proof (cases "pendingStapA this")
    case None
    with 1(2) s1 have "pr = x1" by (simp add: case_prod_unfold)
    with c1 f1 s1 b1 None show ?thesis by (simp add: keptGroup_def)
  next
    case (Some pending)
    with 1(2) s1 obtain p ps where g: "pending = p # ps"
      by (cases pending) (auto simp: case_prod_unfold)
    show ?thesis
    proof (cases "timestamp p \<noteq> timestamp packet")
      case True
      with 1(2) s1 Some g have fl: "flushPendingStapA (fst x1) (snd x1) = Inr pr"
        by (simp add: case_prod_unfold)
      from eS True have "stapAGroupEmits this (p # ps)"
        unfolding Some g by (simp add: newTimestamp_def)
      then have e: "case pendingStapA (fst x1) of None \<Rightarrow> True | Some pending \<Rightarrow> stapAGroupEmits this pending"
        unfolding s1 Some g by simp
      have k: "keptGroup (pendingStapA this) packet = None"
        unfolding Some g using True by (simp add: keptGroup_def newTimestamp_def)
      from balance_flushPendingStapA[OF fl c1 e] f1 b1 show ?thesis
        unfolding k by simp
    next
      case False
      with 1(2) s1 Some g have "pr = x1" by (simp add: case_prod_unfold)
      moreover have "keptGroup (pendingStapA this) packet = pendingStapA this"
        unfolding Some g using False by (simp add: keptGroup_def newTimestamp_def)
      ultimately show ?thesis using c1 f1 s1 b1 by simp
    qed
  qed
qed

lemma acct_repacketizeFuA:
  assumes "repacketizeFuA this packet ret = Inr pr" and cfg: "sameConfig s this"
    and eS: "case pendingStapA this of None \<Rightarrow> True | Some pending \<Rightarrow> stapAGroupEmits s pending"
    and eEnd: "byteAt (payload packet) 1 AND 0x40 \<noteq> 0 \<longrightarrow>
               (case pendingFuA this of
                  None \<Rightarrow> maxPacketSize s * 2 \<le> int (length (payload packet))
                           \<or> fuaGroupEmits s [packet]
                | Some pending \<Rightarrow> fuaGroupEmits s (pending @ [packet]))"
    and M: "3 \<le> maxPacketSize s" and F: "fuaMax s = maxPacketSize s - 2"
  shows "balance pr = balance (this, ret) - 1"
  using assms(1)[unfolded repacketizeFuA_def]
proof (cases rule: bindE_InrE)
  case (1 x1)
  from balance_flushPendingStapA[OF 1(1) cfg eS]
  have a1: "sameConfig s (fst x1)" "pendingFuA (fst x1) = pendingFuA this"
    "balance x1 = balance (this, ret)"
    by auto
  from 1(2)[unfolded case_prod_unfold Let_def] show ?thesis
  proof (cases rule: bindE_InrE)
    case (1 x2)
    have a2: "sameConfig s (fst x2) \<and> pendingFuA (fst x2) = pendingFuA this
              \<and> balance x2 = balance (this, ret)"
      using 1(1) a1 balance_maybeSendSpsPps[OF _ a1(1), of packet "snd x1" x2]
      by (auto split: if_splits)
    from 1(2) show ?thesis
    proof (cases rule: bindE_InrE)
      case (1 x3)
      have a3: "sameConfig s (fst x3) \<and>
                ((pendingFuA (fst x3) = None \<and> balance x3 = balance (this, ret) - 1)
                 \<or> (pendingFuA (fst x3) = Some [] \<and> pendingFuA this = None
                     \<and> \<not> maxPacketSize s * 2 \<le> int (length (payload packet))
                     \<and> balance x3 = balance (this, ret))
                 \<or> (pendingFuA (fst x3) = pendingFuA this \<and> pendingFuA this \<noteq> None
                     \<and> balance x3 = balance (this, ret)))"
      proof (cases "pendingFuA (fst x2) = None")
        case False
        with 1(1) a2 show ?thesis by auto
      next
        case True
        from a2 have M2: "maxPacketSize (fst x2) = maxPacketSize s" by (simp add: sameConfig_def)
        show ?thesis
        proof (cases "maxPacketSize (fst x2) * 2 \<le> int (length (payload packet))")
          case False
          with True 1(1) have "x3 = ((fst x2)\<lparr>pendingFuA := Some []\<rparr>, snd x2)" by simp
          with a2 True False M2 show ?thesis by (simp add: sameConfig_def balance_def buffered_def)
        next
          case big: True
          with True 1(1) obtain fragments where
            fr: "packetizeFuA (fst x2) (payload packet) False False = Inr fragments"
            and r: "x3 = createRtpPackets (fst x2) packet fragments (snd x2) (marker packet)"
            by (auto simp: bindE_Inr)
          from a2 M F big have f1: "1 \<le> fuaMax (fst x2)" and l3: "3 \<le> length (payload packet)"
            by (auto simp: sameConfig_def)
          from packetizeFuA_nonempty_fua[OF f1 l3 fr] have ne: "fragments \<noteq> []" .
          from a2 have c2: "sameConfig s (fst x2)" by simp
          from balance_createRtpPackets[OF ne, of "fst x2" packet "snd x2" "marker packet"]
            config_createRtpPackets[OF c2, of packet fragments "snd x2" "marker packet"] a2 True
          show ?thesis unfolding r by simp
        qed
      qed
      show ?thesis
      proof (cases "pendingFuA (fst x3)")
        case None
        with 1(2) a3 show ?thesis by auto
      next
        case (Some pending)
        with a3 have b3: "balance x3 = balance (this, ret)"
          and pg: "(pending = [] \<and> pendingFuA this = None
                     \<and> \<not> maxPacketSize s * 2 \<le> int (length (payload packet)))
                   \<or> pendingFuA this = Some pending" by auto
        let ?t = "(fst x3)\<lparr>pendingFuA := Some (pending @ [packet])\<rparr>"
        have c4: "sameConfig s ?t" using a3 by (simp add: sameConfig_def)
        have b4: "balance (?t, snd x3) = balance (this, ret) - 1"
          using b3 Some by (simp add: balance_def buffered_def)
        show ?thesis
        proof (cases "byteAt (payload packet) 1 AND 0x40 \<noteq> 0")
          case True
          with 1(2) Some have fl: "flushPendingFuA ?t (snd x3) = Inr pr"
            by simp
          from pg have "fuaGroupEmits s (pending @ [packet])"
          proof
            assume "pending = [] \<and> pendingFuA this = None
                     \<and> \<not> maxPacketSize s * 2 \<le> int (length (payload packet))"
            with eEnd True show ?thesis by simp
          next
            assume "pendingFuA this = Some pending"
            with eEnd True show ?thesis by simp
          qed
          then have e4: "case pendingFuA ?t of None \<Rightarrow> True | Some g \<Rightarrow> fuaGroupEmits s g" by simp
          from balance_flushPendingFuA[OF fl c4 e4] b4 show ?thesis by simp
        next
          case False
          with 1(2) Some have "pr = (?t, snd x3)" by auto
          with b4 show ?thesis by simp
        qed
      qed
    qed
  qed
qed

lemma acct_repacketizeStapA:
  assumes "repacketizeStapA this packet ret = Inr pr" and cfg: "sameConfig s this"
    and eF: "case pendingFuA this of None \<Rightarrow> True | Some pending \<Rightarrow> fuaGroupEmits s pending"
    and eA: "case depacketizeStapA (payload packet) of
               Inl e \<Rightarrow> True
             | Inr nalus \<Rightarrow> filter (\<lambda>p. byteAt p 0 AND 0x1F \<noteq> NAL_TYPE_SEI) nalus \<noteq> []"
  shows "balance pr = balance (this, ret) - 1"
  using assms(1)[unfolded repacketizeStapA_def]
proof (cases rule: bindE_InrE)
  case (1 x1)
  from balance_flushPendingFuA[OF 1(1) cfg eF]
  have a1: "balance x1 = balance (this, ret)" by simp
  from 1(2)[unfolded case_prod_unfold] show ?thesis
  proof (cases rule: bindE_InrE)
    case (1 nalus)
    define t where "t = (fst x1)\<lparr>seenSps := (seenSps (fst x1) \<or>
                            list_ex (\<lambda>p. byteAt p 0 AND 0x1F = NAL_TYPE_SPS) nalus)\<rparr>"
    have b2: "balance (t, snd x1) = balance (this, ret)"
      using a1 by (simp add: balance_def buffered_def t_def)
    from eA 1(1) have ne: "filter (\<lambda>p. byteAt p 0 AND 0x1F \<noteq> NAL_TYPE_SEI) nalus \<noteq> []"
      by simp
    from 1(2)[unfolded Let_def, folded t_def] show ?thesis
    proof (cases rule: bindE_InrE)
      case (1 aggregates)
      from packetizeStapA_nonempty[OF 1(1) ne] have "aggregates \<noteq> []" .
      from balance_createRtpPackets[OF this, of t packet "snd x1" "marker packet"] 1(2) b2
      show ?thesis by simp
    qed
  qed
qed

lemma acct_repacketizeSingle:
  assumes "repacketizeSingle this packet ret = Inr pr" and cfg: "sameConfig s this"
    and eF: "case pendingFuA this of None \<Rightarrow> True | Some pending \<Rightarrow> fuaGroupEmits s pending"
    and eS: "\<not> (byteAt (payload packet) 0 AND 0x1F = NAL_TYPE_SPS
                \<or> byteAt (payload packet) 0 AND 0x1F = NAL_TYPE_PPS) \<longrightarrow>
             (case pendingStapA this of None \<Rightarrow> True | Some pending \<Rightarrow> stapAGroupEmits s pending)"
    and T: "byteAt (payload packet) 0 AND 0x1F \<noteq> NAL_TYPE_FU_A"
    and M: "3 \<le> maxPacketSize s" and F: "fuaMax s = maxPacketSize s - 2"
  shows "balance pr = balance (this, ret) - 1"
  using assms(1)[unfolded repacketizeSingle_def Let_def]
proof (cases rule: bindE_InrE)
  case (1 x1)
  let ?nalType = "byteAt (payload packet) 0 AND 0x1F"
  from balance_flushPendingFuA[OF 1(1) cfg eF]
  have a1: "sameConfig s (fst x1)" "pendingStapA (fst x1) = pendingStapA this"
    "balance x1 = balance (this, ret)" by simp_all
  show ?thesis
  proof (cases "?nalType = NAL_TYPE_SPS \<or> ?nalType = NAL_TYPE_PPS")
    case True
    with 1(2) have "pr = ((fst x1)\<lparr>seenSps := (seenSps (fst x1) \<or> ?nalType = NAL_TYPE_SPS),
                          pendingStapA := Some ((case pendingStapA (fst x1) of None \<Rightarrow> [] | Some ps \<Rightarrow> ps) @ [packet])\<rparr>,
                        snd x1)"
      by (auto simp: case_prod_unfold)
    with a1(3) show ?thesis
      by (simp add: balance_def buffered_def split: option.splits)
  next
    case False
    with eS a1(2) have eS1: "case pendingStapA (fst x1) of None \<Rightarrow> True | Some pending \<Rightarrow> stapAGroupEmits s pending"
      by simp
    from False 1(2) have "bindE (flushPendingStapA (fst x1) (snd x1))
                  (\<lambda>(this, ret).
                     if ?nalType = NAL_TYPE_SEI
                     then Inr (this\<lparr>extraPackets := extraPackets this - 1\<rparr>, ret)
                     else
                       bindE (if ?nalType = NAL_TYPE_IDR \<and> \<not> seenSps this
                              then maybeSendSpsPps this packet ret else Inr (this, ret))
                         (\<lambda>(this, ret).
                            if maxPacketSize this < int (length (payload packet)) then
                              bindE (packetizeFuA this (payload packet) False False)
                                (\<lambda>fragments.
                                   Inr (createRtpPackets this packet fragments ret
                                          (marker packet)))
                            else Inr (this, ret @ [createPacket this packet (payload packet)
                                                     (marker packet)]))) = Inr pr"
      by (simp only: case_prod_unfold if_False fst_conv snd_conv)
    then show ?thesis
    proof (cases rule: bindE_InrE)
      case (1 x2)
      from balance_flushPendingStapA[OF 1(1) a1(1) eS1] a1(3)
      have a2: "sameConfig s (fst x2)" "balance x2 = balance (this, ret)" by simp_all
      show ?thesis
      proof (cases "?nalType = NAL_TYPE_SEI")
        case True
        with 1(2) have "pr = ((fst x2)\<lparr>extraPackets := extraPackets (fst x2) - 1\<rparr>, snd x2)"
          by (auto simp: case_prod_unfold)
        with a2(2) show ?thesis by (simp add: balance_def buffered_def)
      next
        case notSei: False
        with 1(2) have "bindE (if ?nalType = NAL_TYPE_IDR \<and> \<not> seenSps (fst x2)
                              then maybeSendSpsPps (fst x2) packet (snd x2) else Inr (fst x2, snd x2))
                         (\<lambda>(this, ret).
                            if maxPacketSize this < int (length (payload packet)) then
                              bindE (packetizeFuA this (payload packet) False False)
                                (\<lambda>fragments.
                                   Inr (createRtpPackets this packet fragments ret
                                          (marker packet)))
                            else Inr (this, ret @ [createPacket this packet (payload packet)
                                                     (marker packet)])) = Inr pr"
          by (simp only: case_prod_unfold if_False)
        then show ?thesis
        proof (cases rule: bindE_InrE)
          case (1 x3)
          have a3: "sameConfig s (fst x3) \<and> balance x3 = balance (this, ret)"
            using 1(1) a2 balance_maybeSendSpsPps[OF _ a2(1), of packet "snd x2" x3]
            by (auto split: if_splits)
          show ?thesis
          proof (cases "maxPacketSize (fst x3) < int (length (payload packet))")
            case True
            with 1(2) obtain fragments where
              fr: "packetizeFuA (fst x3) (payload packet) False False = Inr fragments"
              and r: "pr = createRtpPackets (fst x3) packet fragments (snd x3) (marker packet)"
              by (auto simp: bindE_Inr case_prod_unfold)
            from a3 M F True have f1: "1 \<le> fuaMax (fst x3)" and l2: "2 \<le> length (payload packet)"
              by (auto simp: sameConfig_def)
            from packetizeFuA_nonempty_single[OF f1 T l2 fr] have ne: "fragments \<noteq> []" .
            from balance_createRtpPackets[OF ne, of "fst x3" packet "snd x3" "marker packet"] a3
            show ?thesis unfolding r by simp
          next
            case False
            with 1(2) have pr: "pr = (fst x3, snd x3 @ [createPacket (fst x3) packet (payload packet) (marker packet)])"
              by (simp add: case_prod_unfold)
            from a3 show ?thesis unfolding pr by (simp add: balance_def)
          qed
        qed
      qed
    qed
  qed
qed

lemma repacketize_balance:
  assumes "repacketize this packet = Inr pr" and E: "flushesEmit this packet"
    and M: "3 \<le> maxPacketSize this" and F: "fuaMax this = maxPacketSize this - 2"
  shows "balance pr = balance (this, []) - 1"
  using assms(1)[unfolded repacketize_def Let_def]
proof (cases rule: bindE_InrE)
  case (1 x1)
  let ?nalType = "byteAt (payload packet) 0 AND 0x1F"
  from E have eS0: "case pendingStapA this of None \<Rightarrow> True
             | Some pending \<Rightarrow> newTimestamp pending packet \<longrightarrow> stapAGroupEmits this pending"
    and eF0: "case pendingFuA this of None \<Rightarrow> True
             | Some pending \<Rightarrow> newTimestamp pending packet \<longrightarrow> fuaGroupEmits this pending"
    by (auto simp: flushesEmit_def Let_def split: option.splits)
  from acct_flushOnTimestamp[OF 1(1) eF0 eS0]
  have cfg: "sameConfig this (fst x1)"
    and kF: "pendingFuA (fst x1) = keptGroup (pendingFuA this) packet"
    and kS: "pendingStapA (fst x1) = keptGroup (pendingStapA this) packet"
    and b1: "balance (fst x1, snd x1) = balance (this, [])"
    by simp_all
  consider (fua) "?nalType = NAL_TYPE_FU_A"
    | (stapa) "?nalType \<noteq> NAL_TYPE_FU_A" "?nalType = NAL_TYPE_STAP_A"
    | (single) "?nalType \<noteq> NAL_TYPE_FU_A" "?nalType \<noteq> NAL_TYPE_STAP_A" "1 \<le> ?nalType \<and> ?nalType < 24"
    | (unknown) "?nalType \<noteq> NAL_TYPE_FU_A" "?nalType \<noteq> NAL_TYPE_STAP_A" "\<not> (1 \<le> ?nalType \<and> ?nalType < 24)"
    by blast
  then show ?thesis
  proof cases
    case fua
    with 1(2) have run: "repacketizeFuA (fst x1) packet (snd x1) = Inr pr"
      by (simp add: case_prod_unfold)
    have eS: "case pendingStapA (fst x1) of None \<Rightarrow> True | Some pending \<Rightarrow> stapAGroupEmits this pending"
      unfolding kS using E fua
      by (auto simp: flushesEmit_def Let_def keptGroup_def split: option.splits)
    have eEnd: "byteAt (payload packet) 1 AND 0x40 \<noteq> 0 \<longrightarrow>
               (case pendingFuA (fst x1) of
                  None \<Rightarrow> maxPacketSize this * 2 \<le> int (length (payload packet))
                           \<or> fuaGroupEmits this [packet]
                | Some pending \<Rightarrow> fuaGroupEmits this (pending @ [packet]))"
      unfolding kF using E fua
      by (simp add: flushesEmit_def Let_def)
    from acct_repacketizeFuA[OF run cfg eS eEnd M F] b1 show ?thesis by simp
  next
    case stapa
    with 1(2) have run: "repacketizeStapA (fst x1) packet (snd x1) = Inr pr"
      by (simp add: case_prod_unfold)
    have eF: "case pendingFuA (fst x1) of None \<Rightarrow> True | Some pending \<Rightarrow> fuaGroupEmits this pending"
      unfolding kF using E stapa
      by (auto simp: flushesEmit_def Let_def keptGroup_def split: option.splits)
    have eA: "case depacketizeStapA (payload packet) of
               Inl e \<Rightarrow> True
             | Inr nalus \<Rightarrow> filter (\<lambda>p. byteAt p 0 AND 0x1F \<noteq> NAL_TYPE_SEI) nalus \<noteq> []"
      using E stapa by (simp add: flushesEmit_def Let_def)
    from acct_repacketizeStapA[OF run cfg eF eA] b1 show ?thesis by simp
  next
    case single
    with 1(2) have run: "repacketizeSingle (fst x1) packet (snd x1) = Inr pr"
      by (simp add: case_prod_unfold)
    have eF: "case pendingFuA (fst x1) of None \<Rightarrow> True | Some pending \<Rightarrow> fuaGroupEmits this pending"
      unfolding kF using E single
      by (auto simp: flushesEmit_def Let_def keptGroup_def split: option.splits)
    have eS: "\<not> (?nalType = NAL_TYPE_SPS \<or> ?nalType = NAL_TYPE_PPS) \<longrightarrow>
             (case pendingStapA (fst x1) of None \<Rightarrow> True | Some pending \<Rightarrow> stapAGroupEmits this pending)"
      unfolding kS using E single
      by (auto simp: flushesEmit_def Let_def keptGroup_def split: option.splits)
    from acct_repacketizeSingle[OF run cfg eF eS single(1) M F] b1 show ?thesis by simp
  next
    case unknown
    with 1(2) have "pr = ((fst x1)\<lparr>extraPackets := extraPackets (fst x1) - 1\<rparr>, snd x1)"
      by (simp add: case_prod_unfold)
    with b1 show ?thesis by (simp add: balance_def buffered_def)
  qed
qed

text \<open>
  C4, as the code has it. The claim counts call by call; the code settles the counter
  group by group: an input that is held back (SPS/PPS, an FU-A fragment awaiting its
  end) leaves \<open>extraPackets\<close> alone, and the flush of \<open>n\<close> held packets into \<open>k\<close>
  emitted ones changes it by \<open>k - n\<close>. So for a call that returns, on a repacketizer
  with \<open>maxPacketSize \<ge> 3\<close>, in which every pending group that the call flushes is
  emitted and a STAP-A input keeps a NAL after the SEI filter, the change of
  \<open>extraPackets\<close> is the number of packets emitted minus 1, plus the change in the
  number of packets held back.
\<close>

theorem repacketize_accounting:
  assumes "3 \<le> maxPacketSize this"
    and "fuaMax this = maxPacketSize this - int FU_A_HEADER_SIZE"
    and "flushesEmit this packet"
    and "repacketize this packet = Inr (this', out)"
  shows "extraPackets this' - extraPackets this
         = int (length out) - 1 + (int (buffered this') - int (buffered this))"
  using repacketize_balance[OF assms(4,3,1)] assms(2)
  by (simp add: balance_def FU_A_HEADER_SIZE_def)

theorem repacketize_accounting_witness:
  "3 \<le> maxPacketSize ((newRepacketizer 1200 None None)
          \<lparr>pendingFuA := Some [\<lparr>sequenceNumber = 10, marker = False, timestamp = 7,
                                  payload = [0x7C, 0x85, 0xAA]\<rparr>]\<rparr>)
   \<and> fuaMax ((newRepacketizer 1200 None None)
          \<lparr>pendingFuA := Some [\<lparr>sequenceNumber = 10, marker = False, timestamp = 7,
                                  payload = [0x7C, 0x85, 0xAA]\<rparr>]\<rparr>)
       = maxPacketSize ((newRepacketizer 1200 None None)
          \<lparr>pendingFuA := Some [\<lparr>sequenceNumber = 10, marker = False, timestamp = 7,
                                  payload = [0x7C, 0x85, 0xAA]\<rparr>]\<rparr>) - int FU_A_HEADER_SIZE
   \<and> flushesEmit ((newRepacketizer 1200 None None)
          \<lparr>pendingFuA := Some [\<lparr>sequenceNumber = 10, marker = False, timestamp = 7,
                                  payload = [0x7C, 0x85, 0xAA]\<rparr>]\<rparr>)
         \<lparr>sequenceNumber = 11, marker = True, timestamp = 7, payload = [0x7C, 0x45]\<rparr>
   \<and> repacketize ((newRepacketizer 1200 None None)
          \<lparr>pendingFuA := Some [\<lparr>sequenceNumber = 10, marker = False, timestamp = 7,
                                  payload = [0x7C, 0x85, 0xAA]\<rparr>]\<rparr>)
         \<lparr>sequenceNumber = 11, marker = True, timestamp = 7, payload = [0x7C, 0x45]\<rparr>
       = Inr (((newRepacketizer 1200 None None)\<lparr>extraPackets := - 1\<rparr>),
          [\<lparr>outSequenceNumber = 10, outMarker = True, outTimestamp = 7,
            outPayload = [0x7C, 0x45, 0xAA]\<rparr>])
   \<and> extraPackets ((newRepacketizer 1200 None None)\<lparr>extraPackets := - 1\<rparr>) - extraPackets ((newRepacketizer 1200 None None)
          \<lparr>pendingFuA := Some [\<lparr>sequenceNumber = 10, marker = False, timestamp = 7,
                                  payload = [0x7C, 0x85, 0xAA]\<rparr>]\<rparr>)
       = int (length [\<lparr>outSequenceNumber = 10, outMarker = True, outTimestamp = 7,
            outPayload = [0x7C, 0x45, 0xAA]\<rparr>]) - 1
         + (int (buffered ((newRepacketizer 1200 None None)\<lparr>extraPackets := - 1\<rparr>))
            - int (buffered ((newRepacketizer 1200 None None)
          \<lparr>pendingFuA := Some [\<lparr>sequenceNumber = 10, marker = False, timestamp = 7,
                                  payload = [0x7C, 0x85, 0xAA]\<rparr>]\<rparr>)))"
proof -
  have h1: "3 \<le> maxPacketSize ((newRepacketizer 1200 None None)
          \<lparr>pendingFuA := Some [\<lparr>sequenceNumber = 10, marker = False, timestamp = 7,
                                  payload = [0x7C, 0x85, 0xAA]\<rparr>]\<rparr>)"
    by (simp add: newRepacketizer_def)
  have h2: "fuaMax ((newRepacketizer 1200 None None)
          \<lparr>pendingFuA := Some [\<lparr>sequenceNumber = 10, marker = False, timestamp = 7,
                                  payload = [0x7C, 0x85, 0xAA]\<rparr>]\<rparr>)
       = maxPacketSize ((newRepacketizer 1200 None None)
          \<lparr>pendingFuA := Some [\<lparr>sequenceNumber = 10, marker = False, timestamp = 7,
                                  payload = [0x7C, 0x85, 0xAA]\<rparr>]\<rparr>) - int FU_A_HEADER_SIZE"
    by (simp add: newRepacketizer_def)
  have f: "packetizeFuA t [0x65, 0xAA] False False = Inr [[0x7C, 0x45, 0xAA]]"
    if "fuaMax t = 1198" for t
    using that
    by (simp add: packetizeFuA_def fuaUnwrap_def fuaFragments_def Let_def byteAt_def ceilDiv_def
        NAL_TYPE_FU_A_def NAL_HEADER_SIZE_def subarray_def fuaLoop.simps[of "[0x65, 0xAA]"])
  have h3: "flushesEmit ((newRepacketizer 1200 None None)
          \<lparr>pendingFuA := Some [\<lparr>sequenceNumber = 10, marker = False, timestamp = 7,
                                  payload = [0x7C, 0x85, 0xAA]\<rparr>]\<rparr>)
         \<lparr>sequenceNumber = 11, marker = True, timestamp = 7, payload = [0x7C, 0x45]\<rparr>"
    using f[of "((newRepacketizer 1200 None None)
          \<lparr>pendingFuA := Some [\<lparr>sequenceNumber = 10, marker = False, timestamp = 7,
                                  payload = [0x7C, 0x85, 0xAA]\<rparr>]\<rparr>)"]
    by (simp add: flushesEmit_def fuaGroupEmits_def keptGroup_def newTimestamp_def model_defs)
  have h4: "repacketize ((newRepacketizer 1200 None None)
          \<lparr>pendingFuA := Some [\<lparr>sequenceNumber = 10, marker = False, timestamp = 7,
                                  payload = [0x7C, 0x85, 0xAA]\<rparr>]\<rparr>)
         \<lparr>sequenceNumber = 11, marker = True, timestamp = 7, payload = [0x7C, 0x45]\<rparr>
       = Inr (((newRepacketizer 1200 None None)\<lparr>extraPackets := - 1\<rparr>),
          [\<lparr>outSequenceNumber = 10, outMarker = True, outTimestamp = 7,
            outPayload = [0x7C, 0x45, 0xAA]\<rparr>])"
    using f[of "((newRepacketizer 1200 None None)
          \<lparr>pendingFuA := Some [\<lparr>sequenceNumber = 10, marker = False, timestamp = 7, payload = [0x7C, 0x85, 0xAA]\<rparr>,
              \<lparr>sequenceNumber = 11, marker = True, timestamp = 7, payload = [0x7C, 0x45]\<rparr>]\<rparr>)"]
    by (simp add: model_defs)
  from repacketize_accounting[OF h1 h2 h3 h4] h1 h2 h3 h4 show ?thesis by (intro conjI)
qed

text \<open>
  The claim as it is written fails on the path it names first: a call that buffers an
  SPS packet emits nothing and leaves \<open>extraPackets\<close> at 0, not at \<open>-1\<close>.
\<close>

theorem repacketize_sps_buffered:
  "repacketize (newRepacketizer 1200 None None)
     \<lparr>sequenceNumber = 10, marker = False, timestamp = 1000, payload = [0x67, 1, 2]\<rparr>
   = Inr ((newRepacketizer 1200 None None)
            \<lparr>pendingStapA := Some [\<lparr>sequenceNumber = 10, marker = False, timestamp = 1000,
                                    payload = [0x67, 1, 2]\<rparr>],
             seenSps := True\<rparr>, [])
   \<and> extraPackets ((newRepacketizer 1200 None None)
            \<lparr>pendingStapA := Some [\<lparr>sequenceNumber = 10, marker = False, timestamp = 1000,
                                    payload = [0x67, 1, 2]\<rparr>],
             seenSps := True\<rparr>) - extraPackets (newRepacketizer 1200 None None)
       \<noteq> int (length ([] :: Serialized list)) - 1"
  by (simp add: model_defs)

end
